theory Spec2Isabelle
  imports Main "HOL-Library.Word" "HOL-Library.List_Lexorder"
begin

unbundle bit_operations_syntax

section \<open>Python values\<close>

text \<open>
  A Python \<open>str\<close> is a sequence of Unicode code points; \<open>len\<close>, slicing,
  \<open>replace\<close> and \<open>strip\<close> all count code points, so a string is a list of
  naturals here.  \<open>str\<close> embeds an ASCII literal.
\<close>

type_synonym pystr = "nat list"

definition str :: "string \<Rightarrow> pystr" where
  "str s = map of_char s"

text \<open>\<open>str.isspace\<close> on one code point: the 29 code points Python treats as whitespace.\<close>

definition py_isspace :: "nat \<Rightarrow> bool" where
  "py_isspace c \<longleftrightarrow>
     (9 \<le> c \<and> c \<le> 13) \<or> (28 \<le> c \<and> c \<le> 32) \<or> c = 133 \<or> c = 160 \<or> c = 5760 \<or>
     (8192 \<le> c \<and> c \<le> 8202) \<or> c = 8232 \<or> c = 8233 \<or> c = 8239 \<or> c = 8287 \<or> c = 12288"

text \<open>\<open>s.strip()\<close>: whitespace removed from both ends.\<close>

definition strip :: "pystr \<Rightarrow> pystr" where
  "strip s = rev (dropWhile py_isspace (rev (dropWhile py_isspace s)))"

text \<open>
  \<open>s.replace(old, new)\<close>: the non-overlapping occurrences of \<open>old\<close>, found from the
  left, are replaced.  With an empty \<open>old\<close> Python puts \<open>new\<close> before every character
  and at the end.
\<close>

function replace_from :: "pystr \<Rightarrow> pystr \<Rightarrow> pystr \<Rightarrow> pystr" where
  "replace_from old new [] = []"
| "replace_from old new (c # cs) =
     (if old \<noteq> [] \<and> take (length old) (c # cs) = old
      then new @ replace_from old new (drop (length old) (c # cs))
      else c # replace_from old new cs)"
  by pat_completeness auto
termination
  by (relation "measure (\<lambda>(old, new, s). length s)") auto

definition replace :: "pystr \<Rightarrow> pystr \<Rightarrow> pystr \<Rightarrow> pystr" where
  "replace s old new =
     (if old = [] then new @ concat (map (\<lambda>c. c # new) s) else replace_from old new s)"

text \<open>
  \<open>s.rsplit(sep, 1)\<close> for a one-character separator: split once, at the last
  occurrence; a string without the separator comes back whole.
\<close>

definition rsplit1 :: "pystr \<Rightarrow> nat \<Rightarrow> pystr list" where
  "rsplit1 s sep =
     (if sep \<in> set s
      then [rev (tl (dropWhile (\<lambda>c. c \<noteq> sep) (rev s))), rev (takeWhile (\<lambda>c. c \<noteq> sep) (rev s))]
      else [s])"

text \<open>
  Case mapping.  The summarizer only case-maps the constants of its own table, whose
  letters are ASCII or Latin-1; code points from U+0100 on are treated as caseless.
\<close>

definition py_islower :: "nat \<Rightarrow> bool" where
  "py_islower c \<longleftrightarrow>
     (97 \<le> c \<and> c \<le> 122) \<or> c = 170 \<or> c = 181 \<or> c = 186 \<or>
     (223 \<le> c \<and> c \<le> 246) \<or> (248 \<le> c \<and> c \<le> 255)"

definition py_upper :: "nat \<Rightarrow> pystr" where
  "py_upper c =
     (if (97 \<le> c \<and> c \<le> 122) \<or> (224 \<le> c \<and> c \<le> 246) \<or> (248 \<le> c \<and> c \<le> 254) then [c - 32]
      else if c = 181 then [924]
      else if c = 223 then [83, 83]
      else if c = 255 then [376]
      else [c])"

definition py_title :: "nat \<Rightarrow> pystr" where
  "py_title c = (if c = 223 then [83, 115] else py_upper c)"

definition py_lower :: "nat \<Rightarrow> nat" where
  "py_lower c =
     (if (65 \<le> c \<and> c \<le> 90) \<or> (192 \<le> c \<and> c \<le> 214) \<or> (216 \<le> c \<and> c \<le> 222) then c + 32
      else c)"

text \<open>\<open>s.capitalize()\<close>: first character title-cased, the rest lower-cased.\<close>

fun capitalize :: "pystr \<Rightarrow> pystr" where
  "capitalize [] = []"
| "capitalize (c # cs) = py_title c @ map py_lower cs"

text \<open>The values that occur in the dictionaries of the program.\<close>

datatype pyval =
    PNone
  | PStr pystr
  | PInt int
  | PDict "(pystr \<times> pyval) list"

text \<open>Exceptions, one constructor for each \<open>raise\<close> of the source.\<close>

datatype error =
    Content_required          \<comment> \<open>\<open>ValueError("Content required")\<close>\<close>
  | Type_must_be_one_of       \<comment> \<open>\<open>ValueError("Type must be one of: ...")\<close>\<close>
  | Author_required           \<comment> \<open>\<open>ValueError("Author required")\<close>\<close>
  | Amendment_required        \<comment> \<open>\<open>TypeError("Amendment required")\<close>\<close>
  | Hash_calculation_failed   \<comment> \<open>\<open>RuntimeError("Hash calculation failed: ...")\<close>\<close>
  | Act_ID_required           \<comment> \<open>\<open>ValueError("Act ID required")\<close>\<close>
  | Act_title_required        \<comment> \<open>\<open>ValueError("Act title required")\<close>\<close>
  | IndexError                \<comment> \<open>indexing an empty string\<close>
  | UnicodeEncodeError        \<comment> \<open>\<open>str.encode\<close> on a surrogate\<close>
  | AttributeError            \<comment> \<open>a class without the attribute read\<close>
  | TypeError_not_supported   \<comment> \<open>\<open>TypeError("'>' not supported between instances ...")\<close>\<close>

section \<open>SHA-256 (\<open>hashlib.sha256(...).hexdigest()\<close>)\<close>

type_synonym byte = "8 word"
type_synonym w32 = "32 word"
type_synonym sha_state = "w32 \<times> w32 \<times> w32 \<times> w32 \<times> w32 \<times> w32 \<times> w32 \<times> w32"

definition rotr :: "nat \<Rightarrow> w32 \<Rightarrow> w32" where
  "rotr n x = drop_bit n x OR push_bit (32 - n) x"

definition Ch :: "w32 \<Rightarrow> w32 \<Rightarrow> w32 \<Rightarrow> w32" where
  "Ch x y z = (x AND y) XOR (NOT x AND z)"

definition Maj :: "w32 \<Rightarrow> w32 \<Rightarrow> w32 \<Rightarrow> w32" where
  "Maj x y z = (x AND y) XOR (x AND z) XOR (y AND z)"

definition bsig0 :: "w32 \<Rightarrow> w32" where
  "bsig0 x = rotr 2 x XOR rotr 13 x XOR rotr 22 x"

definition bsig1 :: "w32 \<Rightarrow> w32" where
  "bsig1 x = rotr 6 x XOR rotr 11 x XOR rotr 25 x"

definition ssig0 :: "w32 \<Rightarrow> w32" where
  "ssig0 x = rotr 7 x XOR rotr 18 x XOR drop_bit 3 x"

definition ssig1 :: "w32 \<Rightarrow> w32" where
  "ssig1 x = rotr 17 x XOR rotr 19 x XOR drop_bit 10 x"

definition sha256_K :: "w32 list" where
  "sha256_K = [
     1116352408, 1899447441, 3049323471, 3921009573, 961987163, 1508970993,
     2453635748, 2870763221, 3624381080, 310598401, 607225278, 1426881987,
     1925078388, 2162078206, 2614888103, 3248222580, 3835390401, 4022224774,
     264347078, 604807628, 770255983, 1249150122, 1555081692, 1996064986,
     2554220882, 2821834349, 2952996808, 3210313671, 3336571891, 3584528711,
     113926993, 338241895, 666307205, 773529912, 1294757372, 1396182291,
     1695183700, 1986661051, 2177026350, 2456956037, 2730485921, 2820302411,
     3259730800, 3345764771, 3516065817, 3600352804, 4094571909, 275423344,
     430227734, 506948616, 659060556, 883997877, 958139571, 1322822218,
     1537002063, 1747873779, 1955562222, 2024104815, 2227730452, 2361852424,
     2428436474, 2756734187, 3204031479, 3329325298]"

definition sha256_H0 :: sha_state where
  "sha256_H0 = (1779033703, 3144134277, 1013904242, 2773480762,
                1359893119, 2600822924, 528734635, 1541459225)"

definition be64 :: "nat \<Rightarrow> byte list" where
  "be64 n = map (\<lambda>i. of_nat (n div 2 ^ (8 * (7 - i)))) [0..<8]"

definition sha256_pad :: "byte list \<Rightarrow> byte list" where
  "sha256_pad m =
     m @ [128] @ replicate ((119 - length m mod 64) mod 64) 0 @ be64 (8 * length m)"

fun be32 :: "byte list \<Rightarrow> w32 list" where
  "be32 (a # b # c # d # rest) =
     (push_bit 24 (ucast a) OR push_bit 16 (ucast b) OR push_bit 8 (ucast c) OR ucast d) # be32 rest"
| "be32 _ = []"

primrec schedule_ext :: "nat \<Rightarrow> w32 list \<Rightarrow> w32 list" where
  "schedule_ext 0 ws = ws"
| "schedule_ext (Suc n) ws =
     (let t = length ws
      in schedule_ext n
           (ws @ [ssig1 (ws ! (t - 2)) + ws ! (t - 7) + ssig0 (ws ! (t - 15)) + ws ! (t - 16)]))"

fun sha_round :: "sha_state \<Rightarrow> w32 \<times> w32 \<Rightarrow> sha_state" where
  "sha_round (a, b, c, d, e, f, g, h) (k, w) =
     (let t1 = h + bsig1 e + Ch e f g + k + w;
          t2 = bsig0 a + Maj a b c
      in (t1 + t2, a, b, c, d + t1, e, f, g))"

fun sha_add :: "sha_state \<Rightarrow> sha_state \<Rightarrow> sha_state" where
  "sha_add (a, b, c, d, e, f, g, h) (a', b', c', d', e', f', g', h') =
     (a + a', b + b', c + c', d + d', e + e', f + f', g + g', h + h')"

definition sha_compress :: "sha_state \<Rightarrow> byte list \<Rightarrow> sha_state" where
  "sha_compress hs block =
     sha_add hs (foldl sha_round hs (zip sha256_K (schedule_ext 48 (be32 block))))"

function chunks64 :: "byte list \<Rightarrow> byte list list" where
  "chunks64 bs = (if length bs < 64 then [] else take 64 bs # chunks64 (drop 64 bs))"
  by pat_completeness auto
termination
  by (relation "measure length") auto

declare chunks64.simps [simp del]

definition hexdigit :: "nat \<Rightarrow> nat" where
  "hexdigit n = (if n < 10 then 48 + n else 87 + n)"

definition hex32 :: "w32 \<Rightarrow> pystr" where
  "hex32 w = map (\<lambda>i. hexdigit (unat (drop_bit (28 - 4 * i) w AND 15))) [0..<8]"

fun hexdigest :: "sha_state \<Rightarrow> pystr" where
  "hexdigest (a, b, c, d, e, f, g, h) =
     hex32 a @ hex32 b @ hex32 c @ hex32 d @ hex32 e @ hex32 f @ hex32 g @ hex32 h"

definition sha256_hexdigest :: "byte list \<Rightarrow> pystr" where
  "sha256_hexdigest bs = hexdigest (foldl sha_compress sha256_H0 (chunks64 (sha256_pad bs)))"

section \<open>\<open>json.dumps(..., sort_keys=True)\<close> and \<open>str.encode()\<close>\<close>

definition hex4 :: "nat \<Rightarrow> pystr" where
  "hex4 n = map (\<lambda>i. hexdigit (n div 16 ^ (3 - i) mod 16)) [0..<4]"

text \<open>
  With \<open>ensure_ascii\<close> (the default) every code point outside \<open>' '..'~'\<close> is escaped,
  those beyond the basic plane as a surrogate pair.
\<close>

definition json_escape_char :: "nat \<Rightarrow> pystr" where
  "json_escape_char c =
     (if c = 34 then [92, 34]
      else if c = 92 then [92, 92]
      else if c = 10 then [92, 110]
      else if c = 13 then [92, 114]
      else if c = 9 then [92, 116]
      else if c = 8 then [92, 98]
      else if c = 12 then [92, 102]
      else if 32 \<le> c \<and> c \<le> 126 then [c]
      else if c < 65536 then [92, 117] @ hex4 c
      else [92, 117] @ hex4 (55296 + (c - 65536) div 1024 mod 1024) @
           [92, 117] @ hex4 (56320 + (c - 65536) mod 1024))"

definition json_string :: "pystr \<Rightarrow> pystr" where
  "json_string s = [34] @ concat (map json_escape_char s) @ [34]"

function nat_digits :: "nat \<Rightarrow> pystr" where
  "nat_digits n = (if n < 10 then [48 + n] else nat_digits (n div 10) @ [48 + n mod 10])"
  by pat_completeness auto
termination
  by (relation "measure id") auto

declare nat_digits.simps [simp del]

definition int_repr :: "int \<Rightarrow> pystr" where
  "int_repr i = (if i < 0 then 45 # nat_digits (nat (- i)) else nat_digits (nat i))"

fun join :: "pystr \<Rightarrow> pystr list \<Rightarrow> pystr" where
  "join sep [] = []"
| "join sep [x] = x"
| "join sep (x # y # ys) = x @ sep @ join sep (y # ys)"

function json_dumps :: "pyval \<Rightarrow> pystr" where
  "json_dumps PNone = str ''null''"
| "json_dumps (PStr s) = json_string s"
| "json_dumps (PInt i) = int_repr i"
| "json_dumps (PDict kvs) =
     str ''{'' @
     join (str '', '')
       (map (\<lambda>kv. json_string (fst kv) @ str '': '' @ json_dumps (snd kv)) (sort_key fst kvs)) @
     str ''}''"
  by pat_completeness auto
termination
proof (relation "measure size")
  show "wf (measure (size :: pyval \<Rightarrow> nat))" by simp
next
  fix kvs :: "(pystr \<times> pyval) list" and kv
  assume "kv \<in> set (sort_key fst kvs)"
  then have "kv \<in> set kvs" by simp
  then have "size (snd kv) < size (PDict kvs)"
    by (induction kvs) (auto simp: less_Suc_eq_le)
  then show "(snd kv, PDict kvs) \<in> measure size" by simp
qed

text \<open>\<open>str.encode()\<close>: UTF-8; surrogates cannot be encoded.\<close>

definition utf8_char :: "nat \<Rightarrow> error + byte list" where
  "utf8_char c =
     (if c < 128 then Inr [of_nat c]
      else if c < 2048 then Inr [of_nat (192 + c div 64), of_nat (128 + c mod 64)]
      else if 55296 \<le> c \<and> c < 57344 then Inl UnicodeEncodeError
      else if c < 65536 then
        Inr [of_nat (224 + c div 4096), of_nat (128 + c div 64 mod 64), of_nat (128 + c mod 64)]
      else
        Inr [of_nat (240 + c div 262144 mod 8), of_nat (128 + c div 4096 mod 64),
             of_nat (128 + c div 64 mod 64), of_nat (128 + c mod 64)])"

fun encode :: "pystr \<Rightarrow> error + byte list" where
  "encode [] = Inr []"
| "encode (c # cs) =
     (case utf8_char c of
        Inl e \<Rightarrow> Inl e
      | Inr bs \<Rightarrow> (case encode cs of Inl e \<Rightarrow> Inl e | Inr rest \<Rightarrow> Inr (bs @ rest)))"

section \<open>The summarizer (\<open>LLMSummaryGenerator\<close>)\<close>

record LLMSummaryGenerator =
  api_key :: "pystr option"
  use_real_llm :: bool

definition LLMSummaryGenerator_init :: "pystr option \<Rightarrow> LLMSummaryGenerator" where
  "LLMSummaryGenerator_init key = \<lparr>api_key = key, use_real_llm = (key \<noteq> None)\<rparr>"

text \<open>
  The jargon dictionary, in the order of the source (a dict iterates in insertion order).
  A character outside ASCII is written as its code point, as Python reads the literal
  from the source file.
\<close>

definition REPLACEMENTS :: "(pystr \<times> pystr) list" where
  "REPLACEMENTS = [
    (str ''niniejszym ustaw'' @ [196, 8230], str ''t'' @ [196, 8230] @ str '' ustaw'' @ [196, 8230]),
    (str ''niezale'' @ [197, 188] @ str ''nie od'', str ''mimo '' @ [197, 188] @ str ''e''),
    (str ''zgodnie z'', str ''wed'' @ [197, 8218] @ str ''ug''),
    (str ''powinien'', str ''musi''),
    (str ''powinna'', str ''musi''),
    (str ''powinno'', str ''musi''),
    (str ''powinni'', str ''musz'' @ [196, 8230]),
    (str ''obowi'' @ [196, 8230] @ str ''zany'', str ''zobowi'' @ [196, 8230] @ str ''zany''),
    (str ''obowi'' @ [196, 8230] @ str ''zana'', str ''zobowi'' @ [196, 8230] @ str ''zana''),
    (str ''uprawniony'', str ''ma prawo''),
    (str ''uprawniona'', str ''ma prawo''),
    (str ''wspomniany wy'' @ [197, 188] @ str ''ej'', str ''wymieniony wy'' @ [197, 188] @ str ''ej''),
    (str ''w kt'' @ [195, 179] @ str ''rym'', str ''gdzie''),
    (str ''w kt'' @ [195, 179] @ str ''rej'', str ''gdzie''),
    (str ''nast'' @ [196, 8482] @ str ''pnie'', str ''potem''),
    (str ''w'' @ [195, 179] @ str ''wczas'', str ''wtedy''),
    (str ''ustawa'', str ''prawo''),
    (str ''ustawy'', str ''praw''),
    (str ''artyku'' @ [197, 8218], str ''Art.''),
    (str ''artyku'' @ [197, 8218] @ str ''u'', str ''Art.''),
    (str ''przepis'', str ''regu'' @ [197, 8218] @ str ''a''),
    (str ''przepisy'', str ''regu'' @ [197, 8218] @ str ''y''),
    (str ''prawo do'', str ''mo'' @ [197, 188] @ str ''e''),
    (str ''obowi'' @ [196, 8230] @ str ''zek'', str ''musi''),
    (str ''odpowiedzialno'' @ [197, 8250, 196, 8225], str ''odpowiada za''),
    (str ''grzywna'', str ''kara pieni'' @ [196, 8482, 197, 188] @ str ''na''),
    (str ''sankcja'', str ''kara''),
    (str ''podatek'', str ''op'' @ [197, 8218] @ str ''ata rz'' @ [196, 8230] @ str ''dowa''),
    (str ''osoba prawna'', str ''organizacja''),
    (str ''osoba fizyczna'', str ''osoba prywatna''),
    (str ''przys'' @ [197, 8218] @ str ''uguje'', str ''ma prawo''),
    (str ''upowa'' @ [197, 188] @ str ''nia'', str ''daje prawo''),
    (str ''zabrania'', str ''nie pozwala''),
    (str ''dopuszcza'', str ''pozwala''),
    (str ''hereby'', str ''t'' @ [196, 8230] @ str '' ustaw'' @ [196, 8230]),
    (str ''notwithstanding'', str ''mimo '' @ [197, 188] @ str ''e''),
    (str ''shall'', str ''musi''),
    (str ''wherein'', str ''gdzie''),
    (str ''thereof'', str ''tego'')]"

text \<open>
  The loop over \<open>REPLACEMENTS.items()\<close>: each key is replaced, then its capitalised
  form when the key starts with a lower-case letter.  \<open>legal[0]\<close> raises on an empty key.
\<close>

fun apply_replacements :: "(pystr \<times> pystr) list \<Rightarrow> pystr \<Rightarrow> error + pystr" where
  "apply_replacements [] simple = Inr simple"
| "apply_replacements ((legal, plain) # rest) simple =
     (let simple1 = replace simple legal plain
      in case legal of
           [] \<Rightarrow> Inl IndexError
         | c # cs \<Rightarrow>
             if py_islower c
             then apply_replacements rest (replace simple1 (py_upper c @ cs) (capitalize plain))
             else apply_replacements rest simple1)"

text \<open>The text after the dictionary and the two formatting replacements, before truncation.\<close>

definition substituted :: "pystr \<Rightarrow> error + pystr" where
  "substituted text =
     (case apply_replacements REPLACEMENTS text of
        Inl e \<Rightarrow> Inl e
      | Inr simple \<Rightarrow>
          Inr (replace (replace simple (str ''ARTYKU'' @ [197]) (str ''Artyku'' @ [197, 8218]))
                 (str ''USTAWA'') (str ''Ustawa'')))"

definition fallback_simplify :: "pystr \<Rightarrow> error + pystr" where
  "fallback_simplify text =
     (case substituted text of
        Inl e \<Rightarrow> Inl e
      | Inr simple \<Rightarrow>
          Inr (if length simple > 200
               then hd (rsplit1 (take 200 simple) 32) @ str ''...''
               else simple))"

definition simplify :: "LLMSummaryGenerator \<Rightarrow> pystr \<Rightarrow> error + pystr" where
  "simplify self text =
     (if strip text = [] then Inr (str ''No content'')
      else if use_real_llm self then fallback_simplify text
      else fallback_simplify text)"

section \<open>Amendments\<close>

record Amendment =
  content :: pystr
  change_type :: pystr
  author :: pystr
  summary :: pystr
  timestamp :: pystr

definition VALID_TYPES :: "pystr set" where
  "VALID_TYPES = {str ''substantive'', str ''editorial''}"

text \<open>
  \<open>Amendment.__init__\<close>.  The clock reading \<open>datetime.now().isoformat()\<close> is the
  argument \<open>now\<close>.  \<open>summary or ...\<close> takes the default for \<open>None\<close> and for the empty
  string alike.
\<close>

definition Amendment_init ::
  "pystr \<Rightarrow> pystr \<Rightarrow> pystr \<Rightarrow> pystr option \<Rightarrow> LLMSummaryGenerator option \<Rightarrow> pystr \<Rightarrow>
   error + Amendment" where
  "Amendment_init content' change_type' author' summary' llm now =
     (if strip content' = [] then Inl Content_required
      else if change_type' \<notin> VALID_TYPES then Inl Type_must_be_one_of
      else if strip author' = [] then Inl Author_required
      else
        case (if summary' \<noteq> None \<and> summary' \<noteq> Some [] then Inr (the summary')
              else case llm of
                     Some g \<Rightarrow> simplify g content'
                   | None \<Rightarrow> Inr (str ''No summary'')) of
          Inl e \<Rightarrow> Inl e
        | Inr s \<Rightarrow>
            Inr \<lparr>content = content', change_type = change_type', author = author',
                 summary = s, timestamp = now\<rparr>)"

definition to_dict :: "Amendment \<Rightarrow> pyval" where
  "to_dict self = PDict [
     (str ''content'', PStr (content self)),
     (str ''change_type'', PStr (change_type self)),
     (str ''author'', PStr (author self)),
     (str ''summary'', PStr (summary self)),
     (str ''timestamp'', PStr (timestamp self))]"

section \<open>Chain nodes\<close>

text \<open>What \<open>isinstance(amendment, Amendment)\<close> distinguishes.\<close>

datatype pyobj = AmendmentObj Amendment | OtherObj

record ChainNode =
  amendment :: Amendment
  parent_hash :: "pystr option"
  hash :: pystr

definition opt_str :: "pystr option \<Rightarrow> pyval" where
  "opt_str p = (case p of None \<Rightarrow> PNone | Some h \<Rightarrow> PStr h)"

text \<open>
  \<open>ChainNode._calculate_hash\<close>: any exception of the serialisation, the encoding or
  the digest is turned into a \<open>RuntimeError\<close>.
\<close>

definition calculate_hash :: "ChainNode \<Rightarrow> error + pystr" where
  "calculate_hash self =
     (case encode (json_dumps (PDict [
              (str ''amendment'', to_dict (amendment self)),
              (str ''parent_hash'', opt_str (parent_hash self))])) of
        Inl e \<Rightarrow> Inl Hash_calculation_failed
      | Inr data \<Rightarrow> Inr (sha256_hexdigest data))"

definition ChainNode_init :: "pyobj \<Rightarrow> pystr option \<Rightarrow> error + ChainNode" where
  "ChainNode_init obj parent =
     (case obj of
        OtherObj \<Rightarrow> Inl Amendment_required
      | AmendmentObj a \<Rightarrow>
          (case calculate_hash \<lparr>amendment = a, parent_hash = parent, hash = []\<rparr> of
             Inl e \<Rightarrow> Inl e
           | Inr h \<Rightarrow> Inr \<lparr>amendment = a, parent_hash = parent, hash = h\<rparr>))"

definition verify :: "ChainNode \<Rightarrow> error + bool" where
  "verify self =
     (case calculate_hash self of Inl e \<Rightarrow> Inl e | Inr h \<Rightarrow> Inr (hash self = h))"

section \<open>The hash chain\<close>

text \<open>
  The values of class attributes, and a class as the list of its attributes in the
  order of the class body (attributes inherited from \<open>object\<close> are left out: the
  program reads none of them).
\<close>

datatype setting = SInt int | SStr pystr | SBool bool | SFunction

type_synonym pyclass = "(pystr \<times> setting) list"

text \<open>
  \<open>hash_chain.py\<close> has two statements \<open>class Config\<close> at module level.  The first
  (line 17) holds the settings; \<open>LOG_LEVEL\<close> is \<open>logging.INFO\<close>, the integer 20.
\<close>

definition Config_line17 :: pyclass where
  "Config_line17 = [
     (str ''RATE_LIMIT_REQUESTS'', SInt 1000),
     (str ''RATE_LIMIT_WINDOW_SEC'', SInt 60),
     (str ''MAX_CHAIN_SIZE'', SInt 10000),
     (str ''MAX_REQUEST_SIZE'', SInt (10 * 1024 * 1024)),
     (str ''AUDIT_LOG'', SStr (str ''audit.log'')),
     (str ''LOG_LEVEL'', SInt 20),
     (str ''BACKUP_ENABLED'', SBool True),
     (str ''BACKUP_DIR'', SStr (str ''./backups''))]"

text \<open>The second (line 685) loads the application configuration; it has methods only.\<close>

definition Config_line685 :: pyclass where
  "Config_line685 = [
     (str ''__init__'', SFunction),
     (str ''_load_config'', SFunction),
     (str ''get'', SFunction)]"

text \<open>
  The module-level name \<open>Config\<close> once the module has been imported: the block under
  \<open>if __name__ == "__main__"\<close> (lines 531 to 674) is skipped, the class statement of
  line 685 runs and rebinds the name.  A function body looks a global name up when it is
  called, so this is the class that a call of \<open>verify_integrity\<close> from any importing
  module reads.
\<close>

definition Config :: pyclass where
  "Config = Config_line685"

text \<open>\<open>cls.name\<close> on a class.\<close>

definition getattr :: "pyclass \<Rightarrow> pystr \<Rightarrow> error + setting" where
  "getattr cls name = (case map_of cls name of None \<Rightarrow> Inl AttributeError | Some v \<Rightarrow> Inr v)"

text \<open>\<open>n > v\<close> for an integer \<open>n\<close>: a \<open>bool\<close> is an \<open>int\<close>; a string or a function raises.\<close>

definition int_gt :: "int \<Rightarrow> setting \<Rightarrow> error + bool" where
  "int_gt n v =
     (case v of
        SInt m \<Rightarrow> Inr (n > m)
      | SBool b \<Rightarrow> Inr (n > (if b then 1 else 0))
      | SStr _ \<Rightarrow> Inl TypeError_not_supported
      | SFunction \<Rightarrow> Inl TypeError_not_supported)"

text \<open>One call of \<open>AuditLog.log\<close>: the event and its details.\<close>

type_synonym audit_entry = "pystr \<times> (pystr \<times> pyval) list"

record HashChain =
  act_id :: pystr
  act_title :: pystr
  chain :: "ChainNode list"
  llm :: "LLMSummaryGenerator option"
  audit :: "audit_entry list"

definition audit_log :: "HashChain \<Rightarrow> pystr \<Rightarrow> (pystr \<times> pyval) list \<Rightarrow> HashChain" where
  "audit_log self event details = self\<lparr>audit := audit self @ [(event, details)]\<rparr>"

definition HashChain_init ::
  "pystr \<Rightarrow> pystr \<Rightarrow> LLMSummaryGenerator option \<Rightarrow> error + HashChain" where
  "HashChain_init act_id' act_title' llm' =
     (if strip act_id' = [] then Inl Act_ID_required
      else if strip act_title' = [] then Inl Act_title_required
      else Inr \<lparr>act_id = act_id', act_title = act_title', chain = [], llm = llm', audit = []\<rparr>)"

text \<open>\<open>add_amendment\<close> returns the new node's hash and the chain after the call.\<close>

definition add_amendment :: "HashChain \<Rightarrow> pyobj \<Rightarrow> error + (pystr \<times> HashChain)" where
  "add_amendment self obj =
     (case obj of
        OtherObj \<Rightarrow> Inl Amendment_required
      | AmendmentObj a \<Rightarrow>
          (let parent = (if chain self \<noteq> [] then Some (hash (last (chain self))) else None)
           in case ChainNode_init obj parent of
                Inl e \<Rightarrow> Inl e
              | Inr node \<Rightarrow>
                  Inr (hash node,
                       audit_log (self\<lparr>chain := chain self @ [node]\<rparr>) (str ''amendment_added'')
                         [(str ''act'', PStr (act_id self)),
                          (str ''hash'', PStr (take 16 (hash node))),
                          (str ''author'', PStr (author a))])))"

definition history_row :: "nat \<times> ChainNode \<Rightarrow> pyval" where
  "history_row p = (case p of (i, node) \<Rightarrow> PDict [
     (str ''version'', PInt (int i + 1)),
     (str ''hash'', PStr (hash node)),
     (str ''parent_hash'', opt_str (parent_hash node)),
     (str ''amendment'', to_dict (amendment node))])"

definition get_history :: "HashChain \<Rightarrow> pyval list \<times> HashChain" where
  "get_history self = (map history_row (enumerate 0 (chain self)), self)"

text \<open>
  The loop of \<open>verify_integrity\<close> over \<open>enumerate(self.chain)\<close>.  The result is the
  value returned or the exception raised, with the chain object as the call leaves it.
\<close>

fun verify_nodes ::
  "HashChain \<Rightarrow> (nat \<times> ChainNode) list \<Rightarrow> (error + bool) \<times> HashChain" where
  "verify_nodes self [] =
     (Inr True, audit_log self (str ''chain_verified'')
                  [(str ''act'', PStr (act_id self)),
                   (str ''status'', PStr (str ''valid'')),
                   (str ''amendments'', PInt (int (length (chain self))))])"
| "verify_nodes self ((i, node) # rest) =
     (case verify node of
        Inl e \<Rightarrow> (Inl e, self)
      | Inr ok \<Rightarrow>
          if \<not> ok then
            (Inr False, audit_log self (str ''tampering_detected'')
                          [(str ''act'', PStr (act_id self)),
                           (str ''node'', PInt (int i)),
                           (str ''reason'', PStr (str ''hash_mismatch''))])
          else if i > 0 \<and> parent_hash node \<noteq> Some (hash (chain self ! (i - 1))) then
            (Inr False, audit_log self (str ''tampering_detected'')
                          [(str ''act'', PStr (act_id self)),
                           (str ''node'', PInt (int i)),
                           (str ''reason'', PStr (str ''parent_link_broken''))])
          else verify_nodes self rest)"

text \<open>
  \<open>verify_integrity\<close>.  Its first argument is the class that the global name
  \<open>Config\<close> denotes when the method is called; \<open>Config.MAX_CHAIN_SIZE\<close> is read
  before anything else happens.
\<close>

definition verify_integrity :: "pyclass \<Rightarrow> HashChain \<Rightarrow> (error + bool) \<times> HashChain" where
  "verify_integrity Config' self =
     (case getattr Config' (str ''MAX_CHAIN_SIZE'') of
        Inl e \<Rightarrow> (Inl e, self)
      | Inr limit \<Rightarrow>
          (case int_gt (int (length (chain self))) limit of
             Inl e \<Rightarrow> (Inl e, self)
           | Inr too_large \<Rightarrow>
               if too_large then
                 (Inr False, audit_log self (str ''chain_too_large'')
                               [(str ''act'', PStr (act_id self)),
                                (str ''size'', PInt (int (length (chain self))))])
               else verify_nodes self (enumerate 0 (chain self))))"

section \<open>The second implementation (\<open>crypto_utils.py\<close>)\<close>

record cu_Amendment =
  cu_content :: pystr
  cu_change_type :: pystr
  cu_author :: pystr
  cu_summary :: pystr
  cu_timestamp :: pystr

definition cu_to_dict :: "cu_Amendment \<Rightarrow> pyval" where
  "cu_to_dict self = PDict [
     (str ''content'', PStr (cu_content self)),
     (str ''change_type'', PStr (cu_change_type self)),
     (str ''author'', PStr (cu_author self)),
     (str ''summary'', PStr (cu_summary self)),
     (str ''timestamp'', PStr (cu_timestamp self))]"

record cu_ChainNode =
  cu_amendment :: cu_Amendment
  cu_parent_hash :: "pystr option"
  cu_hash :: pystr

text \<open>No \<open>try\<close> here: an exception of the encoding would escape as it is.\<close>

definition cu_calculate_hash :: "cu_ChainNode \<Rightarrow> error + pystr" where
  "cu_calculate_hash self =
     (case encode (json_dumps (PDict [
              (str ''amendment'', cu_to_dict (cu_amendment self)),
              (str ''parent_hash'', opt_str (cu_parent_hash self))])) of
        Inl e \<Rightarrow> Inl e
      | Inr data \<Rightarrow> Inr (sha256_hexdigest data))"

section \<open>Specification vocabulary\<close>

text \<open>
  The canonical encoding of an entry, written out: the JSON object of the parent hash and
  of the record's five fields, keys in alphabetical order, \<open>", "\<close> and \<open>": "\<close> as
  separators, \<open>null\<close> for a missing parent.
\<close>

definition canonical_text :: "Amendment \<Rightarrow> pystr option \<Rightarrow> pystr" where
  "canonical_text a p =
     str ''{'' @ json_string (str ''amendment'') @ str '': {'' @
       json_string (str ''author'') @ str '': '' @ json_string (author a) @ str '', '' @
       json_string (str ''change_type'') @ str '': '' @ json_string (change_type a) @ str '', '' @
       json_string (str ''content'') @ str '': '' @ json_string (content a) @ str '', '' @
       json_string (str ''summary'') @ str '': '' @ json_string (summary a) @ str '', '' @
       json_string (str ''timestamp'') @ str '': '' @ json_string (timestamp a) @ str ''}, '' @
     json_string (str ''parent_hash'') @ str '': '' @
       (case p of None \<Rightarrow> str ''null'' | Some h \<Rightarrow> json_string h) @ str ''}''"

text \<open>
  The digest of an entry as the specification describes it: SHA-256 over the bytes of the
  canonical encoding (which is ASCII), in lower-case hexadecimal.
\<close>

definition entry_digest :: "Amendment \<Rightarrow> pystr option \<Rightarrow> pystr" where
  "entry_digest a p = sha256_hexdigest (map of_nat (canonical_text a p))"

text \<open>Entry \<open>i\<close> of a chain passes both checks: its own hash and the link to its predecessor.\<close>

definition hash_ok :: "ChainNode \<Rightarrow> bool" where
  "hash_ok n \<longleftrightarrow> hash n = entry_digest (amendment n) (parent_hash n)"

definition link_ok :: "ChainNode list \<Rightarrow> nat \<Rightarrow> bool" where
  "link_ok ns i \<longleftrightarrow> i = 0 \<or> parent_hash (ns ! i) = Some (hash (ns ! (i - 1)))"

definition entry_ok :: "ChainNode list \<Rightarrow> nat \<Rightarrow> bool" where
  "entry_ok ns i \<longleftrightarrow> hash_ok (ns ! i) \<and> link_ok ns i"

text \<open>Empty or whitespace-only.\<close>

definition blank :: "pystr \<Rightarrow> bool" where
  "blank s \<longleftrightarrow> list_all py_isspace s"

text \<open>A caller appending a list of objects, one \<open>add_amendment\<close> after the other.\<close>

fun add_all :: "HashChain \<Rightarrow> pyobj list \<Rightarrow> error + (pystr list \<times> HashChain)" where
  "add_all self [] = Inr ([], self)"
| "add_all self (obj # objs) =
     (case add_amendment self obj of
        Inl e \<Rightarrow> Inl e
      | Inr (h, self') \<Rightarrow>
          (case add_all self' objs of
             Inl e \<Rightarrow> Inl e
           | Inr (hs, self'') \<Rightarrow> Inr (h # hs, self'')))"

text \<open>What the audit log receives when entry \<open>i\<close> fails: its index and the failed check.\<close>

definition failure_report :: "HashChain \<Rightarrow> nat \<Rightarrow> audit_entry" where
  "failure_report s i =
     (str ''tampering_detected'',
      [(str ''act'', PStr (act_id s)),
       (str ''node'', PInt (int i)),
       (str ''reason'',
        PStr (if hash_ok (chain s ! i) then str ''parent_link_broken'' else str ''hash_mismatch''))])"

text \<open>Chain linkage: the first entry has no parent, every other one names its predecessor.\<close>

definition linked :: "ChainNode list \<Rightarrow> bool" where
  "linked ns \<longleftrightarrow>
     (ns \<noteq> [] \<longrightarrow> parent_hash (ns ! 0) = None) \<and>
     (\<forall>i. 0 < i \<and> i < length ns \<longrightarrow> parent_hash (ns ! i) = Some (hash (ns ! (i - 1))))"

text \<open>The records and the ledger of the end-to-end scenario, used as test inputs.\<close>

definition rec_A :: Amendment where
  "rec_A = \<lparr>content = str ''A'', change_type = str ''substantive'', author = str ''Alice'',
            summary = str ''No summary'', timestamp = str ''2024-12-01T10:00:00''\<rparr>"

definition rec_B :: Amendment where
  "rec_B = \<lparr>content = str ''B'', change_type = str ''editorial'', author = str ''Bob'',
            summary = str ''No summary'', timestamp = str ''2024-12-01T10:00:01''\<rparr>"

definition rec_C :: Amendment where
  "rec_C = \<lparr>content = str ''C'', change_type = str ''substantive'', author = str ''Carol'',
            summary = str ''No summary'', timestamp = str ''2024-12-01T10:00:02''\<rparr>"

definition act_1 :: HashChain where
  "act_1 = \<lparr>act_id = str ''ACT-1'', act_title = str ''Test Act'', chain = [], llm = None, audit = []\<rparr>"

definition node_A :: ChainNode where
  "node_A = \<lparr>amendment = rec_A, parent_hash = None, hash = entry_digest rec_A None\<rparr>"

definition node_B :: ChainNode where
  "node_B = \<lparr>amendment = rec_B, parent_hash = Some (hash node_A),
             hash = entry_digest rec_B (Some (hash node_A))\<rparr>"

text \<open>A second entry whose own hash is right but which names no predecessor.\<close>

definition node_B_unlinked :: ChainNode where
  "node_B_unlinked = \<lparr>amendment = rec_B, parent_hash = None, hash = entry_digest rec_B None\<rparr>"

text \<open>\<open>list(d.keys())\<close> of a dictionary.\<close>

definition dict_keys :: "pyval \<Rightarrow> pystr list" where
  "dict_keys v = (case v of PDict kvs \<Rightarrow> map fst kvs | _ \<Rightarrow> [])"

section \<open>Serialisation and digest never fail\<close>

lemma str_inj: "str a = str b \<longleftrightarrow> a = b"
  unfolding str_def by (simp add: inj_map_eq_map inj_on_def)

lemma hexdigit_ascii: "n < 16 \<Longrightarrow> hexdigit n < 128"
  by (simp add: hexdigit_def)

lemma hex4_ascii: "c \<in> set (hex4 n) \<Longrightarrow> c < 128"
  by (auto simp: hex4_def intro!: hexdigit_ascii)

lemma escape_ascii: "x \<in> set (json_escape_char c) \<Longrightarrow> x < 128"
  by (auto simp: json_escape_char_def dest: hex4_ascii split: if_splits)

lemma json_string_ascii: "x \<in> set (json_string s) \<Longrightarrow> x < 128"
  by (auto simp: json_string_def dest: escape_ascii)

lemma nat_digits_ascii: "x \<in> set (nat_digits n) \<Longrightarrow> x < 128"
proof (induction n arbitrary: x rule: nat_digits.induct)
  case (1 n)
  show ?case
  proof (cases "n < 10")
    case True
    with "1.prems" show ?thesis by (simp add: nat_digits.simps [of n])
  next
    case False
    with "1.prems" "1.IH" show ?thesis
      by (auto simp: nat_digits.simps [of n])
  qed
qed

lemma int_repr_ascii: "x \<in> set (int_repr i) \<Longrightarrow> x < 128"
  by (auto simp: int_repr_def dest: nat_digits_ascii split: if_splits)

lemma join_ascii:
  "\<forall>c\<in>set sep. c < 128 \<Longrightarrow> \<forall>x\<in>set xs. \<forall>c\<in>set x. c < 128 \<Longrightarrow> c \<in> set (join sep xs) \<Longrightarrow> c < (128::nat)"
  by (induction sep xs rule: join.induct) auto

lemma json_dumps_ascii: "c \<in> set (json_dumps v) \<Longrightarrow> c < 128"
proof (induction v arbitrary: c)
  case PNone
  then show ?case by (auto simp: str_def)
next
  case (PStr s)
  then show ?case by (auto dest: json_string_ascii)
next
  case (PInt i)
  then show ?case by (auto dest: int_repr_ascii)
next
  case (PDict kvs)
  have items: "\<forall>x\<in>set (map (\<lambda>kv. json_string (fst kv) @ str '': '' @ json_dumps (snd kv)) (sort_key fst kvs)).
                 \<forall>c\<in>set x. c < 128"
  proof (intro ballI)
    fix x c
    assume x: "x \<in> set (map (\<lambda>kv. json_string (fst kv) @ str '': '' @ json_dumps (snd kv)) (sort_key fst kvs))"
      and c: "c \<in> set x"
    from x obtain kv where kv: "kv \<in> set kvs" and xeq: "x = json_string (fst kv) @ str '': '' @ json_dumps (snd kv)"
      by auto
    have "snd kv \<in> Basic_BNFs.snds kv" by (cases kv) simp
    with PDict.IH kv have "\<And>d. d \<in> set (json_dumps (snd kv)) \<Longrightarrow> d < 128" by blast
    with c xeq show "c < 128"
      by (auto simp: str_def dest: json_string_ascii)
  qed
  have sep: "\<forall>c\<in>set (str '', ''). c < 128" by (simp add: str_def)
  from PDict.prems show ?case
    using join_ascii [OF sep items] by (auto simp: str_def)
qed

lemma encode_ascii: "\<forall>c\<in>set s. c < 128 \<Longrightarrow> encode s = Inr (map of_nat s)"
  by (induction s) (auto simp: utf8_char_def)

lemma encode_json_dumps: "encode (json_dumps v) = Inr (map of_nat (json_dumps v))"
  by (rule encode_ascii) (blast dest: json_dumps_ascii)

lemma json_dumps_to_dict:
  "json_dumps (to_dict a) =
     str ''{'' @
       json_string (str ''author'') @ str '': '' @ json_string (author a) @ str '', '' @
       json_string (str ''change_type'') @ str '': '' @ json_string (change_type a) @ str '', '' @
       json_string (str ''content'') @ str '': '' @ json_string (content a) @ str '', '' @
       json_string (str ''summary'') @ str '': '' @ json_string (summary a) @ str '', '' @
       json_string (str ''timestamp'') @ str '': '' @ json_string (timestamp a) @ str ''}''"
  by (simp add: to_dict_def str_def)

lemma json_dumps_entry:
  "json_dumps (PDict [(str ''amendment'', to_dict a), (str ''parent_hash'', opt_str p)]) =
     canonical_text a p"
proof -
  have order: "str ''amendment'' \<le> str ''parent_hash''" by (simp add: str_def)
  have "json_dumps (PDict [(str ''amendment'', to_dict a), (str ''parent_hash'', opt_str p)]) =
     str ''{'' @ json_string (str ''amendment'') @ str '': '' @ json_dumps (to_dict a) @ str '', '' @
     json_string (str ''parent_hash'') @ str '': '' @ json_dumps (opt_str p) @ str ''}''"
    using order by (simp del: json_dumps.simps(4) add: json_dumps.simps(4) [of "[_, _]"])
  also have "\<dots> = canonical_text a p"
    unfolding json_dumps_to_dict canonical_text_def
    by (cases p) (simp_all add: opt_str_def str_def)
  finally show ?thesis .
qed

lemma entry_digest_dumps:
  "entry_digest a p =
     sha256_hexdigest (map of_nat (json_dumps (PDict [
        (str ''amendment'', to_dict a),
        (str ''parent_hash'', opt_str p)])))"
  by (simp only: entry_digest_def json_dumps_entry)

lemma calculate_hash_eq: "calculate_hash n = Inr (entry_digest (amendment n) (parent_hash n))"
  unfolding calculate_hash_def entry_digest_dumps encode_json_dumps by simp

lemma cu_calculate_hash_eq:
  "cu_calculate_hash m = Inr (sha256_hexdigest (map of_nat (json_dumps (PDict [
        (str ''amendment'', cu_to_dict (cu_amendment m)),
        (str ''parent_hash'', opt_str (cu_parent_hash m))]))))"
  unfolding cu_calculate_hash_def encode_json_dumps by simp

lemma length_hex32: "length (hex32 w) = 8"
  by (simp add: hex32_def)

lemma length_sha256_hexdigest: "length (sha256_hexdigest bs) = 64"
  unfolding sha256_hexdigest_def
  by (cases "foldl sha_compress sha256_H0 (chunks64 (sha256_pad bs))" rule: hexdigest.cases)
     (simp add: length_hex32)

lemma verify_eq: "verify n = Inr (hash_ok n)"
  by (simp add: verify_def calculate_hash_eq hash_ok_def)

lemma ChainNode_init_eq:
  "ChainNode_init (AmendmentObj a) p = Inr \<lparr>amendment = a, parent_hash = p, hash = entry_digest a p\<rparr>"
  by (simp add: ChainNode_init_def calculate_hash_eq)

lemma hex32_digits: "c \<in> set (hex32 w) \<Longrightarrow> c \<in> {48..57} \<union> {97..102}"
proof -
  have b: "unat (x AND 15) < 16" for x :: w32
  proof -
    have "x AND 15 \<le> 15" by (rule word_and_le1)
    then show ?thesis by (simp add: word_le_nat_alt)
  qed
  assume "c \<in> set (hex32 w)"
  then obtain i where "c = hexdigit (unat (drop_bit (28 - 4 * i) w AND 15))"
    by (auto simp: hex32_def)
  with b [of "drop_bit (28 - 4 * i) w"] show ?thesis
    by (auto simp: hexdigit_def)
qed

lemma sha256_hexdigest_digits: "c \<in> set (sha256_hexdigest bs) \<Longrightarrow> c \<in> {48..57} \<union> {97..102}"
  unfolding sha256_hexdigest_def
  by (cases "foldl sha_compress sha256_H0 (chunks64 (sha256_pad bs))" rule: hexdigest.cases)
     (auto dest!: hex32_digits)

section \<open>The verification loop and appending\<close>


lemma verify_nodes_ok:
  "k \<le> length (chain s) \<Longrightarrow> \<forall>i. k \<le> i \<and> i < length (chain s) \<longrightarrow> entry_ok (chain s) i \<Longrightarrow>
   verify_nodes s (enumerate k (drop k (chain s))) =
     (Inr True, audit_log s (str ''chain_verified'')
                  [(str ''act'', PStr (act_id s)),
                   (str ''status'', PStr (str ''valid'')),
                   (str ''amendments'', PInt (int (length (chain s))))])"
proof (induction "length (chain s) - k" arbitrary: k)
  case 0
  then show ?case by simp
next
  case (Suc d)
  then have k: "k < length (chain s)" by simp
  then have dr: "drop k (chain s) = chain s ! k # drop (Suc k) (chain s)"
    by (simp add: Cons_nth_drop_Suc)
  from Suc.prems k have ok: "entry_ok (chain s) k" by simp
  have rest: "verify_nodes s (enumerate (Suc k) (drop (Suc k) (chain s))) =
     (Inr True, audit_log s (str ''chain_verified'')
                  [(str ''act'', PStr (act_id s)),
                   (str ''status'', PStr (str ''valid'')),
                   (str ''amendments'', PInt (int (length (chain s))))])"
    using Suc.hyps Suc.prems k by (intro Suc.hyps(1)) auto
  from ok rest show ?case
    by (auto simp: dr verify_eq entry_ok_def link_ok_def)
qed

lemma verify_nodes_fail:
  "k \<le> i \<Longrightarrow> i < length (chain s) \<Longrightarrow> \<not> entry_ok (chain s) i \<Longrightarrow>
   \<forall>j. k \<le> j \<and> j < i \<longrightarrow> entry_ok (chain s) j \<Longrightarrow>
   verify_nodes s (enumerate k (drop k (chain s))) =
     (Inr False, s\<lparr>audit := audit s @ [failure_report s i]\<rparr>)"
proof (induction "i - k" arbitrary: k)
  case 0
  then have ki: "k = i" by simp
  from 0 have dr: "drop i (chain s) = chain s ! i # drop (Suc i) (chain s)"
    by (simp add: Cons_nth_drop_Suc)
  from 0 show ?case
    by (auto simp: ki dr verify_eq entry_ok_def link_ok_def failure_report_def audit_log_def)
next
  case (Suc d)
  then have k: "k < i" "k < length (chain s)" by simp_all
  then have dr: "drop k (chain s) = chain s ! k # drop (Suc k) (chain s)"
    by (simp add: Cons_nth_drop_Suc)
  from Suc.prems k have ok: "entry_ok (chain s) k" by simp
  have rest: "verify_nodes s (enumerate (Suc k) (drop (Suc k) (chain s))) =
     (Inr False, s\<lparr>audit := audit s @ [failure_report s i]\<rparr>)"
    using Suc.hyps Suc.prems k by (intro Suc.hyps(1)) auto
  from ok rest show ?case
    by (auto simp: dr verify_eq entry_ok_def link_ok_def)
qed

lemma first_failure:
  "\<not> (\<forall>i<n::nat. P i) \<Longrightarrow> \<exists>i<n. \<not> P i \<and> (\<forall>j<i. P j)"
proof -
  assume "\<not> (\<forall>i<n. P i)"
  then have "\<exists>i. i < n \<and> \<not> P i" by blast
  then obtain m where m: "m < n \<and> \<not> P m" and least: "\<forall>j<m. \<not> (j < n \<and> \<not> P j)"
    using exists_least_iff [of "\<lambda>i. i < n \<and> \<not> P i"] by blast
  have "\<forall>j<m. P j"
  proof (intro allI impI)
    fix j assume "j < m"
    with least m show "P j" by (meson less_trans)
  qed
  with m show ?thesis by blast
qed

lemma getattr_Config: "getattr Config (str ''MAX_CHAIN_SIZE'') = Inl AttributeError"
  by (simp add: getattr_def Config_def Config_line685_def str_inj)

lemma getattr_Config_line17: "getattr Config_line17 (str ''MAX_CHAIN_SIZE'') = Inr (SInt 10000)"
  by (simp add: getattr_def Config_line17_def str_inj)

text \<open>Called from an importing module, \<open>verify_integrity\<close> raises before it does anything.\<close>

lemma verify_integrity_after_import: "verify_integrity Config s = (Inl AttributeError, s)"
  by (simp add: verify_integrity_def getattr_Config)

text \<open>With the settings class of line 17 the guard and the loop run.\<close>

lemma verify_integrity_line17:
  "verify_integrity Config_line17 s =
     (if 10000 < length (chain s) then
        (Inr False, audit_log s (str ''chain_too_large'')
                      [(str ''act'', PStr (act_id s)),
                       (str ''size'', PInt (int (length (chain s))))])
      else verify_nodes s (enumerate 0 (chain s)))"
  by (simp add: verify_integrity_def getattr_Config_line17 int_gt_def)

lemma verify_integrity_line17_characterised:
  "length (chain s) \<le> 10000 \<Longrightarrow>
     (\<exists>b s'. verify_integrity Config_line17 s = (Inr b, s') \<and>
        (b \<longleftrightarrow> (\<forall>i<length (chain s). entry_ok (chain s) i))) \<and>
     (\<forall>i<length (chain s). \<not> entry_ok (chain s) i \<and> (\<forall>j<i. entry_ok (chain s) j) \<longrightarrow>
        verify_integrity Config_line17 s =
          (Inr False, s\<lparr>audit := audit s @ [failure_report s i]\<rparr>))"
proof -
  assume len: "length (chain s) \<le> 10000"
  then have vi: "verify_integrity Config_line17 s = verify_nodes s (enumerate 0 (drop 0 (chain s)))"
    by (simp add: verify_integrity_line17)
  have fail: "verify_integrity Config_line17 s =
      (Inr False, s\<lparr>audit := audit s @ [failure_report s i]\<rparr>)"
    if "i < length (chain s)" "\<not> entry_ok (chain s) i" "\<forall>j<i. entry_ok (chain s) j" for i
    unfolding vi using that by (intro verify_nodes_fail) auto
  have first: "\<exists>b s'. verify_integrity Config_line17 s = (Inr b, s') \<and>
        (b \<longleftrightarrow> (\<forall>i<length (chain s). entry_ok (chain s) i))"
  proof (cases "\<forall>i<length (chain s). entry_ok (chain s) i")
    case True
    then have "verify_integrity Config_line17 s =
      (Inr True, audit_log s (str ''chain_verified'')
                  [(str ''act'', PStr (act_id s)),
                   (str ''status'', PStr (str ''valid'')),
                   (str ''amendments'', PInt (int (length (chain s))))])"
      unfolding vi by (intro verify_nodes_ok) auto
    with True show ?thesis by blast
  next
    case False
    then obtain i where "i < length (chain s)" "\<not> entry_ok (chain s) i" "\<forall>j<i. entry_ok (chain s) j"
      using first_failure [of "length (chain s)" "entry_ok (chain s)"] by blast
    then have "verify_integrity Config_line17 s =
        (Inr False, s\<lparr>audit := audit s @ [failure_report s i]\<rparr>)"
      by (rule fail)
    with False show ?thesis by blast
  qed
  from first fail show ?thesis by blast
qed


lemma add_amendment_eq:
  "add_amendment s (AmendmentObj a) =
     Inr (entry_digest a (if chain s \<noteq> [] then Some (hash (last (chain s))) else None),
          s\<lparr>chain := chain s @ [\<lparr>amendment = a,
                 parent_hash = (if chain s \<noteq> [] then Some (hash (last (chain s))) else None),
                 hash = entry_digest a (if chain s \<noteq> [] then Some (hash (last (chain s))) else None)\<rparr>],
            audit := audit s @ [(str ''amendment_added'',
               [(str ''act'', PStr (act_id s)),
                (str ''hash'', PStr (take 16 (entry_digest a
                    (if chain s \<noteq> [] then Some (hash (last (chain s))) else None)))),
                (str ''author'', PStr (author a))])]\<rparr>)"
  by (simp add: add_amendment_def ChainNode_init_eq audit_log_def Let_def)

lemma add_amendment_Inr:
  "add_amendment s obj = Inr (h, s') \<Longrightarrow>
     \<exists>n. chain s' = chain s @ [n] \<and> h = hash n \<and>
         parent_hash n = (if chain s \<noteq> [] then Some (hash (last (chain s))) else None) \<and>
         hash_ok n \<and> obj = AmendmentObj (amendment n)"
proof (cases obj)
  case (AmendmentObj a)
  assume "add_amendment s obj = Inr (h, s')"
  then show ?thesis
    unfolding AmendmentObj add_amendment_eq by (auto simp: hash_ok_def)
next
  case OtherObj
  assume "add_amendment s obj = Inr (h, s')"
  with OtherObj show ?thesis by (simp add: add_amendment_def)
qed

lemma linked_snoc:
  "linked ns \<Longrightarrow> parent_hash n = (if ns \<noteq> [] then Some (hash (last ns)) else None) \<Longrightarrow>
   linked (ns @ [n])"
  unfolding linked_def
  by (auto simp: nth_append last_conv_nth less_Suc_eq split: if_splits)

lemma add_all_Cons_Inr:
  "add_all s (obj # objs) = Inr (hs, s') \<Longrightarrow>
     \<exists>h s1 hs1. add_amendment s obj = Inr (h, s1) \<and> add_all s1 objs = Inr (hs1, s') \<and> hs = h # hs1"
proof (cases "add_amendment s obj")
  case (Inl e)
  assume "add_all s (obj # objs) = Inr (hs, s')"
  with Inl show ?thesis by simp
next
  case (Inr p)
  assume run: "add_all s (obj # objs) = Inr (hs, s')"
  obtain h s1 where p: "p = (h, s1)" by (cases p)
  show ?thesis
  proof (cases "add_all s1 objs")
    case (Inl e)
    with run Inr p show ?thesis by simp
  next
    case inner: (Inr q)
    obtain hs1 s2 where q: "q = (hs1, s2)" by (cases q)
    from run Inr p inner q show ?thesis by simp
  qed
qed

lemma add_all_invariant:
  "add_all s objs = Inr (hs, s') \<Longrightarrow> linked (chain s) \<Longrightarrow>
     \<exists>new. chain s' = chain s @ new \<and> length new = length objs \<and> hs = map hash new \<and>
           linked (chain s') \<and> objs = map (\<lambda>n. AmendmentObj (amendment n)) new"
proof (induction objs arbitrary: s hs)
  case Nil
  then show ?case by simp
next
  case (Cons obj objs)
  from add_all_Cons_Inr [OF Cons.prems(1)] obtain h s1 hs1 where
    step: "add_amendment s obj = Inr (h, s1)" and rest: "add_all s1 objs = Inr (hs1, s')"
    and hs: "hs = h # hs1"
    by blast
  from add_amendment_Inr [OF step] obtain n where
    n: "chain s1 = chain s @ [n]" "h = hash n"
       "parent_hash n = (if chain s \<noteq> [] then Some (hash (last (chain s))) else None)"
       "obj = AmendmentObj (amendment n)"
    by blast
  have "linked (chain s1)" unfolding n(1) using Cons.prems(2) n(3) by (rule linked_snoc)
  from Cons.IH [OF rest this] obtain new where
    new: "chain s' = chain s1 @ new" "length new = length objs" "hs1 = map hash new"
         "linked (chain s')" "objs = map (\<lambda>n. AmendmentObj (amendment n)) new"
    by blast
  have 1: "chain s' = chain s @ (n # new)" using new(1) n(1) by simp
  have 2: "length (n # new) = length (obj # objs)" using new(2) by simp
  have 3: "hs = map hash (n # new)" unfolding hs n(2) new(3) by simp
  have 4: "obj # objs = map (\<lambda>n. AmendmentObj (amendment n)) (n # new)"
    using n(4) new(5) by simp
  show ?case
  proof (intro exI conjI)
    show "chain s' = chain s @ (n # new)" by (fact 1)
    show "length (n # new) = length (obj # objs)" by (fact 2)
    show "hs = map hash (n # new)" by (fact 3)
    show "linked (chain s')" by (fact new(4))
    show "obj # objs = map (\<lambda>n. AmendmentObj (amendment n)) (n # new)" by (fact 4)
  qed
qed

lemma add_all_succeeds: "\<exists>hs s'. add_all s (map AmendmentObj as) = Inr (hs, s')"
proof (induction as arbitrary: s)
  case Nil
  show ?case by simp
next
  case (Cons a as)
  obtain h s1 where step: "add_amendment s (AmendmentObj a) = Inr (h, s1)"
    using add_amendment_eq [of s a] by blast
  from Cons [of s1] obtain hs s2 where "add_all s1 (map AmendmentObj as) = Inr (hs, s2)"
    by blast
  with step show ?case by simp
qed

lemma strip_empty_iff: "strip s = [] \<longleftrightarrow> blank s"
proof
  assume "strip s = []"
  then have "\<forall>x\<in>set (dropWhile py_isspace s). py_isspace x"
    by (simp add: strip_def dropWhile_eq_Nil_conv)
  then have "dropWhile py_isspace s = []"
    by (cases "dropWhile py_isspace s") (use hd_dropWhile [of py_isspace s] in auto)
  then show "blank s" by (simp add: blank_def dropWhile_eq_Nil_conv list_all_iff)
next
  assume "blank s"
  then have "dropWhile py_isspace s = []"
    by (simp add: blank_def dropWhile_eq_Nil_conv list_all_iff)
  then show "strip s = []" unfolding strip_def by (simp del: dropWhile_eq_Nil_conv)
qed

lemma init_act_1: "HashChain_init (str ''ACT-1'') (str ''Test Act'') None = Inr act_1"
  by (simp add: HashChain_init_def strip_empty_iff blank_def str_def py_isspace_def act_1_def)

section \<open>The summarizer\<close>

lemma py_upper_nonempty: "py_upper c \<noteq> []"
  by (simp add: py_upper_def)

lemma apply_replacements_total:
  "\<forall>kv\<in>set tbl. fst kv \<noteq> [] \<Longrightarrow> \<exists>r. apply_replacements tbl s = Inr r"
proof (induction tbl arbitrary: s)
  case Nil
  show ?case by simp
next
  case (Cons kv tbl)
  obtain legal plain where kv: "kv = (legal, plain)" by (cases kv)
  with Cons.prems obtain c cs where legal: "legal = c # cs" by (cases legal) auto
  from Cons.prems have rest: "\<forall>kv\<in>set tbl. fst kv \<noteq> []" by simp
  show ?case
    unfolding kv legal using Cons.IH [OF rest] by (simp add: Let_def)
qed

lemma REPLACEMENTS_keys: "\<forall>kv\<in>set REPLACEMENTS. fst kv \<noteq> [] \<and> 97 \<le> hd (fst kv) \<and> hd (fst kv) \<le> 122"
  by (simp add: REPLACEMENTS_def str_def)

lemma substituted_total: "\<exists>r. substituted text = Inr r"
proof -
  from REPLACEMENTS_keys have "\<forall>kv\<in>set REPLACEMENTS. fst kv \<noteq> []" by blast
  from apply_replacements_total [OF this, of "text"] show ?thesis
    by (auto simp: substituted_def)
qed

lemma rsplit1_hd_split: "sep \<notin> set zs \<Longrightarrow> hd (rsplit1 (ys @ sep # zs) sep) = ys"
proof -
  assume z: "sep \<notin> set zs"
  then have "dropWhile (\<lambda>c. c \<noteq> sep) (rev zs @ sep # rev ys) = dropWhile (\<lambda>c. c \<noteq> sep) (sep # rev ys)"
    by (intro dropWhile_append2) auto
  then show ?thesis by (simp add: rsplit1_def)
qed

lemma rsplit1_hd_none: "sep \<notin> set s \<Longrightarrow> hd (rsplit1 s sep) = s"
  by (simp add: rsplit1_def)

lemma last_occurrence:
  "x \<in> set (take n s) \<Longrightarrow> n < length s \<Longrightarrow>
     \<exists>k<n. s ! k = x \<and> (\<forall>j. k < j \<and> j < n \<longrightarrow> s ! j \<noteq> x) \<and>
        (\<exists>zs. take n s = take k s @ x # zs \<and> x \<notin> set zs)"
proof -
  assume x: "x \<in> set (take n s)" and n: "n < length s"
  from split_list_last [OF x] obtain ys zs where
    sp: "take n s = ys @ x # zs" and z: "x \<notin> set zs" by blast
  from n have len: "length (take n s) = n" by simp
  have "length (take n s) = length (ys @ x # zs)" unfolding sp by simp
  with len have total: "n = length ys + Suc (length zs)" by simp
  then have k: "length ys < n" by simp
  have nth: "s ! j = (ys @ x # zs) ! j" if "j < n" for j
  proof -
    from that have "take n s ! j = s ! j" by simp
    then show ?thesis unfolding sp by simp
  qed
  have at: "s ! length ys = x" using nth [OF k] by simp
  have after: "s ! j \<noteq> x" if "length ys < j" "j < n" for j
  proof -
    from that total have "j - Suc (length ys) < length zs" by arith
    then have "zs ! (j - Suc (length ys)) \<in> set zs" by simp
    moreover from that have "(ys @ x # zs) ! j = zs ! (j - Suc (length ys))"
      by (simp add: nth_append nth_Cons')
    ultimately show ?thesis using z nth [OF that(2)] by metis
  qed
  have pre: "take (length ys) s = ys"
  proof -
    have "take (length ys) (take n s) = ys" unfolding sp by simp
    with k show ?thesis by (simp add: min_def)
  qed
  show ?thesis
  proof (rule exI [of _ "length ys"], intro conjI)
    show "length ys < n" by (fact k)
    show "s ! length ys = x" by (fact at)
    show "\<forall>j. length ys < j \<and> j < n \<longrightarrow> s ! j \<noteq> x" using after by blast
    show "\<exists>zs. take n s = take (length ys) s @ x # zs \<and> x \<notin> set zs"
      unfolding pre using sp z by blast
  qed
qed

lemma replace_from_absent: "old \<noteq> [] \<Longrightarrow> hd old \<notin> set s \<Longrightarrow> replace_from old new s = s"
proof (induction s)
  case Nil
  show ?case by simp
next
  case (Cons c cs)
  from Cons.prems obtain x xs where old: "old = x # xs" by (cases old) auto
  with Cons.prems have "x \<noteq> c" by auto
  then have "take (length old) (c # cs) \<noteq> old" unfolding old by simp
  moreover from Cons have "replace_from old new cs = cs" by simp
  ultimately show ?case by simp
qed

lemma replace_absent: "old \<noteq> [] \<Longrightarrow> hd old \<notin> set s \<Longrightarrow> replace s old new = s"
  by (simp add: replace_def replace_from_absent)

lemma apply_replacements_absent:
  "\<forall>kv\<in>set tbl. fst kv \<noteq> [] \<and> 97 \<le> hd (fst kv) \<and> hd (fst kv) \<le> 122 \<Longrightarrow>
   \<forall>c\<in>set s. \<not> (65 \<le> c \<and> c \<le> 90) \<and> \<not> (97 \<le> c \<and> c \<le> 122) \<Longrightarrow>
   apply_replacements tbl s = Inr s"
proof (induction tbl)
  case Nil
  show ?case by simp
next
  case (Cons kv tbl)
  obtain legal plain where kv: "kv = (legal, plain)" by (cases kv)
  with Cons.prems(1) obtain c cs where legal: "legal = c # cs" and c: "97 \<le> c" "c \<le> 122"
    by (cases legal) auto
  from c Cons.prems(2) have "c \<notin> set s" by blast
  then have r1: "replace s legal plain = s" unfolding legal by (intro replace_absent) simp_all
  from c have "65 \<le> c - 32 \<and> c - 32 \<le> 90" by arith
  with Cons.prems(2) have "c - 32 \<notin> set s" by blast
  then have r2: "replace s ((c - 32) # cs) (capitalize plain) = s"
    by (intro replace_absent) simp_all
  from c have up: "py_upper c = [c - 32]" "py_islower c"
    by (simp_all add: py_upper_def py_islower_def)
  from Cons.prems have rest: "apply_replacements tbl s = Inr s"
    by (intro Cons.IH) simp_all
  show ?case unfolding kv
    by (simp add: legal [symmetric] r1) (simp add: legal up r2 rest)
qed

lemma substituted_absent:
  "\<forall>c\<in>set s. \<not> (65 \<le> c \<and> c \<le> 90) \<and> \<not> (97 \<le> c \<and> c \<le> 122) \<Longrightarrow> substituted s = Inr s"
proof -
  assume free: "\<forall>c\<in>set s. \<not> (65 \<le> c \<and> c \<le> 90) \<and> \<not> (97 \<le> c \<and> c \<le> 122)"
  have tbl: "apply_replacements REPLACEMENTS s = Inr s"
    using REPLACEMENTS_keys free by (rule apply_replacements_absent)
  have "(65::nat) \<notin> set s" "(85::nat) \<notin> set s" using free by auto
  then have "replace s (str ''ARTYKU'' @ [197]) (str ''Artyku'' @ [197, 8218]) = s"
    "replace s (str ''USTAWA'') (str ''Ustawa'') = s"
    by (simp_all add: replace_absent str_def)
  with tbl show ?thesis by (simp add: substituted_def)
qed

lemma simplify_absent:
  "\<not> blank s \<Longrightarrow> \<forall>c\<in>set s. \<not> (65 \<le> c \<and> c \<le> 90) \<and> \<not> (97 \<le> c \<and> c \<le> 122) \<Longrightarrow>
   length s \<le> 200 \<Longrightarrow> simplify g s = Inr s"
  by (simp add: simplify_def strip_empty_iff fallback_simplify_def substituted_absent)

lemma long_input_facts:
  "\<not> blank (str ''1 2'' @ [9] @ replicate 200 51)"
  "\<forall>c\<in>set (str ''1 2'' @ [9] @ replicate 200 51). \<not> (65 \<le> c \<and> c \<le> 90) \<and> \<not> (97 \<le> c \<and> c \<le> 122)"
  "length (str ''1 2'' @ [9] @ replicate 200 51) = 204"
  "take 200 (str ''1 2'' @ [9] @ replicate 200 51) = [49] @ 32 # ([50, 9] @ replicate 196 51)"
  by (simp_all add: blank_def str_def py_isspace_def)

lemma truncation_splits_at_spaces_only:
  "simplify (LLMSummaryGenerator_init None) (str ''1 2'' @ [9] @ replicate 200 51) = Inr (str ''1...'')"
proof -
  let ?s = "str ''1 2'' @ [9] @ replicate 200 51"
  have sub: "substituted ?s = Inr ?s" using long_input_facts(2) by (rule substituted_absent)
  have h: "hd (rsplit1 (take 200 ?s) 32) = [49]"
    unfolding long_input_facts(4) by (rule rsplit1_hd_split) simp
  have len: "200 < length ?s" unfolding long_input_facts(3) by simp
  have ns: "strip ?s \<noteq> []" unfolding strip_empty_iff by (fact long_input_facts(1))
  have "simplify (LLMSummaryGenerator_init None) ?s = fallback_simplify ?s"
    unfolding simplify_def by (simp only: ns if_False if_cancel)
  also have "\<dots> = Inr (hd (rsplit1 (take 200 ?s) 32) @ str ''...'')"
    unfolding fallback_simplify_def sub by (simp only: len if_True sum.case)
  also have "\<dots> = Inr (str ''1...'')" unfolding h by (simp add: str_def)
  finally show ?thesis .
qed

section \<open>Constructing amendments\<close>

lemma simplify_total: "\<exists>r. simplify g c = Inr r"
proof -
  obtain sub where "substituted c = Inr sub" using substituted_total by blast
  then show ?thesis by (simp add: simplify_def fallback_simplify_def)
qed

lemma VALID_TYPES_iff: "t \<in> VALID_TYPES \<longleftrightarrow> t = str ''substantive'' \<or> t = str ''editorial''"
  by (auto simp: VALID_TYPES_def)

lemma Amendment_init_blank_content:
  "blank c \<Longrightarrow> Amendment_init c t a sm g now = Inl Content_required"
  by (simp add: Amendment_init_def strip_empty_iff)

lemma Amendment_init_bad_type:
  "\<not> blank c \<Longrightarrow> t \<notin> VALID_TYPES \<Longrightarrow> Amendment_init c t a sm g now = Inl Type_must_be_one_of"
  by (simp add: Amendment_init_def strip_empty_iff)

lemma Amendment_init_blank_author:
  "\<not> blank c \<Longrightarrow> t \<in> VALID_TYPES \<Longrightarrow> blank a \<Longrightarrow>
   Amendment_init c t a sm g now = Inl Author_required"
  by (simp add: Amendment_init_def strip_empty_iff)

lemma Amendment_init_accepts:
  "\<not> blank c \<Longrightarrow> t \<in> VALID_TYPES \<Longrightarrow> \<not> blank a \<Longrightarrow>
   Amendment_init c t a sm g now =
     (case (if sm \<noteq> None \<and> sm \<noteq> Some [] then Inr (the sm)
            else case g of Some l \<Rightarrow> simplify l c | None \<Rightarrow> Inr (str ''No summary'')) of
        Inl e \<Rightarrow> Inl e
      | Inr s \<Rightarrow> Inr \<lparr>content = c, change_type = t, author = a, summary = s, timestamp = now\<rparr>)"
  by (simp add: Amendment_init_def strip_empty_iff)

lemma Amendment_init_summary:
  "\<exists>s. (if sm \<noteq> None \<and> sm \<noteq> Some [] then Inr (the sm)
        else case g of Some l \<Rightarrow> simplify l c | None \<Rightarrow> Inr (str ''No summary'')) = Inr s"
  using simplify_total by (cases g) auto

lemma Amendment_init_valid:
  "\<not> blank c \<Longrightarrow> t \<in> VALID_TYPES \<Longrightarrow> \<not> blank a \<Longrightarrow>
   \<exists>s. Amendment_init c t a sm g now =
     Inr \<lparr>content = c, change_type = t, author = a, summary = s, timestamp = now\<rparr>"
proof -
  assume a: "\<not> blank c" "t \<in> VALID_TYPES" "\<not> blank a"
  obtain s where "(if sm \<noteq> None \<and> sm \<noteq> Some [] then Inr (the sm)
        else case g of Some l \<Rightarrow> simplify l c | None \<Rightarrow> Inr (str ''No summary'')) = Inr s"
    using Amendment_init_summary by blast
  then have "Amendment_init c t a sm g now =
     Inr \<lparr>content = c, change_type = t, author = a, summary = s, timestamp = now\<rparr>"
    unfolding Amendment_init_accepts [OF a] by simp
  then show ?thesis by blast
qed

section \<open>Claims\<close>

text \<open>
  C3.  The entry hash is a function of the record's fields and the parent hash only:
  two nodes that agree on these have the same computed hash, whatever hash they store.
  Constructing a node from a record succeeds, and the fresh node verifies.
\<close>

theorem hash_is_deterministic:
  "(amendment n1 = amendment n2 \<and> parent_hash n1 = parent_hash n2
      \<longrightarrow> calculate_hash n1 = calculate_hash n2) \<and>
   (\<exists>n. ChainNode_init (AmendmentObj r) p = Inr n \<and> amendment n = r \<and> parent_hash n = p \<and>
        verify n = Inr True)"
  by (simp add: calculate_hash_eq ChainNode_init_eq verify_eq hash_ok_def)

theorem hash_is_deterministic_witness:
  "amendment \<lparr>amendment = rec_A, parent_hash = None, hash = []\<rparr> =
     amendment \<lparr>amendment = rec_A, parent_hash = None, hash = str ''tampered''\<rparr> \<and>
   parent_hash \<lparr>amendment = rec_A, parent_hash = None, hash = []\<rparr> =
     parent_hash \<lparr>amendment = rec_A, parent_hash = None, hash = str ''tampered''\<rparr> \<and>
   calculate_hash \<lparr>amendment = rec_A, parent_hash = None, hash = []\<rparr> =
     calculate_hash \<lparr>amendment = rec_A, parent_hash = None, hash = str ''tampered''\<rparr>"
  using hash_is_deterministic
    [of "\<lparr>amendment = rec_A, parent_hash = None, hash = []\<rparr>"
        "\<lparr>amendment = rec_A, parent_hash = None, hash = str ''tampered''\<rparr>"]
  by simp

text \<open>
  C5.  The claim: a chain of more than 10000 entries is reported invalid, whatever its
  entries are.  The code: on a chain of 10001 entries, a call from an importing module
  raises \<open>AttributeError\<close> at the size guard, because the name \<open>Config\<close> no longer
  denotes the class with \<open>MAX_CHAIN_SIZE\<close>; nothing is returned and nothing is logged.
  With the class of line 17 the same call returns \<open>False\<close> after logging
  \<open>chain_too_large\<close>.
\<close>

theorem oversized_chain_check_raises:
  "10000 < length (chain (act_1\<lparr>chain := replicate 10001 node_A\<rparr>)) \<and>
   verify_integrity Config (act_1\<lparr>chain := replicate 10001 node_A\<rparr>) =
     (Inl AttributeError, act_1\<lparr>chain := replicate 10001 node_A\<rparr>) \<and>
   verify_integrity Config_line17 (act_1\<lparr>chain := replicate 10001 node_A\<rparr>) =
     (Inr False, act_1\<lparr>chain := replicate 10001 node_A,
        audit := [(str ''chain_too_large'',
                   [(str ''act'', PStr (str ''ACT-1'')), (str ''size'', PInt 10001)])]\<rparr>)"
  by (simp add: verify_integrity_after_import verify_integrity_line17 audit_log_def act_1_def)

text \<open>
  C10.  The two implementations of the entry hash agree: on a node of
  \<open>hash_chain.py\<close> and a node of \<open>crypto_utils.py\<close> with equal content,
  change type, author, summary, timestamp and parent hash, both return the same digest,
  which has 64 characters, all of them lower-case hexadecimal digits.
\<close>

theorem hash_implementations_agree:
  "content (amendment n) = cu_content (cu_amendment m) \<Longrightarrow>
   change_type (amendment n) = cu_change_type (cu_amendment m) \<Longrightarrow>
   author (amendment n) = cu_author (cu_amendment m) \<Longrightarrow>
   summary (amendment n) = cu_summary (cu_amendment m) \<Longrightarrow>
   timestamp (amendment n) = cu_timestamp (cu_amendment m) \<Longrightarrow>
   parent_hash n = cu_parent_hash m \<Longrightarrow>
   \<exists>h. calculate_hash n = Inr h \<and> cu_calculate_hash m = Inr h \<and> length h = 64 \<and>
       set h \<subseteq> {48..57} \<union> {97..102}"
proof -
  assume a: "content (amendment n) = cu_content (cu_amendment m)"
    "change_type (amendment n) = cu_change_type (cu_amendment m)"
    "author (amendment n) = cu_author (cu_amendment m)"
    "summary (amendment n) = cu_summary (cu_amendment m)"
    "timestamp (amendment n) = cu_timestamp (cu_amendment m)"
    "parent_hash n = cu_parent_hash m"
  then have "to_dict (amendment n) = cu_to_dict (cu_amendment m)"
    by (simp add: to_dict_def cu_to_dict_def)
  with a(6) have "cu_calculate_hash m = Inr (entry_digest (amendment n) (parent_hash n))"
    unfolding cu_calculate_hash_eq entry_digest_dumps by simp
  moreover have "length (entry_digest (amendment n) (parent_hash n)) = 64"
    unfolding entry_digest_def by (rule length_sha256_hexdigest)
  moreover have "set (entry_digest (amendment n) (parent_hash n)) \<subseteq> {48..57} \<union> {97..102}"
    unfolding entry_digest_def using sha256_hexdigest_digits by blast
  ultimately show ?thesis
    using calculate_hash_eq [of n] by blast
qed

theorem hash_implementations_agree_witness:
  "cu_calculate_hash \<lparr>cu_amendment = \<lparr>cu_content = str ''B'', cu_change_type = str ''editorial'',
         cu_author = str ''Bob'', cu_summary = str ''No summary'',
         cu_timestamp = str ''2024-12-01T10:00:01''\<rparr>,
       cu_parent_hash = Some (entry_digest rec_A None), cu_hash = []\<rparr> =
   calculate_hash \<lparr>amendment = rec_B, parent_hash = Some (entry_digest rec_A None), hash = []\<rparr> \<and>
   length (entry_digest rec_B (Some (entry_digest rec_A None))) = 64"
  using hash_implementations_agree
    [of "\<lparr>amendment = rec_B, parent_hash = Some (entry_digest rec_A None), hash = []\<rparr>"
        "\<lparr>cu_amendment = \<lparr>cu_content = str ''B'', cu_change_type = str ''editorial'',
         cu_author = str ''Bob'', cu_summary = str ''No summary'',
         cu_timestamp = str ''2024-12-01T10:00:01''\<rparr>,
       cu_parent_hash = Some (entry_digest rec_A None), cu_hash = []\<rparr>"]
  by (auto simp: rec_B_def calculate_hash_eq)

text \<open>
  C1.  The claim: on a chain within the size limit \<open>verify_integrity\<close> returns
  \<open>True\<close> exactly when every entry passes both checks.  The code: on the two-entry
  chain built by two appends, where both entries pass both checks, a call from an
  importing module raises \<open>AttributeError\<close> and returns nothing.  With the class of
  line 17 the same call returns \<open>True\<close> and logs \<open>chain_verified\<close>.
\<close>

theorem valid_chain_check_raises:
  "length (chain (act_1\<lparr>chain := [node_A, node_B]\<rparr>)) \<le> 10000 \<and>
   entry_ok [node_A, node_B] 0 \<and> entry_ok [node_A, node_B] 1 \<and>
   verify_integrity Config (act_1\<lparr>chain := [node_A, node_B]\<rparr>) =
     (Inl AttributeError, act_1\<lparr>chain := [node_A, node_B]\<rparr>) \<and>
   verify_integrity Config_line17 (act_1\<lparr>chain := [node_A, node_B]\<rparr>) =
     (Inr True, act_1\<lparr>chain := [node_A, node_B],
        audit := [(str ''chain_verified'',
                   [(str ''act'', PStr (str ''ACT-1'')), (str ''status'', PStr (str ''valid'')),
                    (str ''amendments'', PInt 2)])]\<rparr>)"
proof -
  let ?good = "act_1\<lparr>chain := [node_A, node_B]\<rparr>"
  have A: "entry_ok [node_A, node_B] 0" "entry_ok [node_A, node_B] 1"
    by (simp_all add: entry_ok_def hash_ok_def link_ok_def node_A_def node_B_def)
  have all: "\<forall>i. 0 \<le> i \<and> i < length (chain ?good) \<longrightarrow> entry_ok (chain ?good) i"
    using A by (auto simp: less_Suc_eq numeral_2_eq_2)
  have "verify_nodes ?good (enumerate 0 (drop 0 (chain ?good))) =
     (Inr True, audit_log ?good (str ''chain_verified'')
                  [(str ''act'', PStr (act_id ?good)),
                   (str ''status'', PStr (str ''valid'')),
                   (str ''amendments'', PInt (int (length (chain ?good))))])"
    using all by (intro verify_nodes_ok) simp
  then have 17: "verify_integrity Config_line17 ?good =
     (Inr True, act_1\<lparr>chain := [node_A, node_B],
        audit := [(str ''chain_verified'',
                   [(str ''act'', PStr (str ''ACT-1'')), (str ''status'', PStr (str ''valid'')),
                    (str ''amendments'', PInt 2)])]\<rparr>)"
    by (simp add: verify_integrity_line17 audit_log_def act_1_def)
  have small: "length (chain ?good) \<le> 10000" by simp
  from small A verify_integrity_after_import [of ?good] 17 show ?thesis by (intro conjI)
qed

text \<open>
  C2.  After one or more successful appends to a fresh ledger there is one entry for each
  call, the first entry has no parent (\<open>None\<close> is the genesis value), every later entry
  names the stored hash of its predecessor, and the hashes returned by the calls are the
  hashes stored in the entries, in order.
\<close>

theorem appends_link_the_chain:
  "HashChain_init aid title g = Inr s0 \<Longrightarrow> add_all s0 objs = Inr (hs, s) \<Longrightarrow> objs \<noteq> [] \<Longrightarrow>
     length (chain s) = length objs \<and>
     parent_hash (chain s ! 0) = None \<and>
     (\<forall>i. 0 < i \<and> i < length (chain s) \<longrightarrow>
          parent_hash (chain s ! i) = Some (hash (chain s ! (i - 1)))) \<and>
     hs = map hash (chain s)"
proof -
  assume init: "HashChain_init aid title g = Inr s0" and run: "add_all s0 objs = Inr (hs, s)"
    and ne: "objs \<noteq> []"
  from init have empty: "chain s0 = []"
    by (auto simp: HashChain_init_def split: if_splits)
  then have "linked (chain s0)" by (simp add: linked_def)
  from add_all_invariant [OF run this] obtain new where
    new: "chain s = chain s0 @ new" "length new = length objs" "hs = map hash new"
      and lk: "linked (chain s)"
    by blast
  have cs: "chain s = new" using new(1) empty by simp
  have len: "length (chain s) = length objs" unfolding cs by (fact new(2))
  with ne have nonempty: "chain s \<noteq> []" by auto
  from lk nonempty have first: "parent_hash (chain s ! 0) = None"
    unfolding linked_def by blast
  from lk have links: "\<forall>i. 0 < i \<and> i < length (chain s) \<longrightarrow>
          parent_hash (chain s ! i) = Some (hash (chain s ! (i - 1)))"
    unfolding linked_def by blast
  have ret: "hs = map hash (chain s)" unfolding cs by (fact new(3))
  from len first links ret show ?thesis by (intro conjI)
qed

theorem appends_link_the_chain_witness:
  "HashChain_init (str ''ACT-1'') (str ''Test Act'') None = Inr act_1 \<and>
   (\<exists>hs s. add_all act_1 [AmendmentObj rec_A, AmendmentObj rec_B, AmendmentObj rec_C] = Inr (hs, s) \<and>
      length (chain s) = 3 \<and>
      parent_hash (chain s ! 0) = None \<and>
      parent_hash (chain s ! 1) = Some (hash (chain s ! 0)) \<and>
      parent_hash (chain s ! 2) = Some (hash (chain s ! 1)) \<and>
      hs = [hash (chain s ! 0), hash (chain s ! 1), hash (chain s ! 2)])"
proof -
  let ?objs = "[AmendmentObj rec_A, AmendmentObj rec_B, AmendmentObj rec_C]"
  obtain hs s where run: "add_all act_1 ?objs = Inr (hs, s)"
    using add_all_succeeds [of act_1 "[rec_A, rec_B, rec_C]"] by auto
  have ne: "?objs \<noteq> []" by simp
  from appends_link_the_chain [OF init_act_1 run ne]
  have len: "length (chain s) = 3"
    and first: "parent_hash (chain s ! 0) = None"
    and links: "\<forall>i. 0 < i \<and> i < length (chain s) \<longrightarrow>
          parent_hash (chain s ! i) = Some (hash (chain s ! (i - 1)))"
    and ret: "hs = map hash (chain s)"
    by simp_all
  from links len have l1: "parent_hash (chain s ! 1) = Some (hash (chain s ! 0))"
    by (metis One_nat_def diff_self_eq_0 less_numeral_extra(1) one_less_numeral_iff semiring_norm(77))
  from links len have l2: "parent_hash (chain s ! 2) = Some (hash (chain s ! 1))"
    using links [rule_format, of 2] by simp
  obtain x y z where xyz: "chain s = [x, y, z]"
    using len by (auto simp: length_Suc_conv numeral_3_eq_3)
  with ret have r: "hs = [hash (chain s ! 0), hash (chain s ! 1), hash (chain s ! 2)]" by simp
  from init_act_1 run len first l1 l2 r show ?thesis by blast
qed



text \<open>
  C6, as stated, fails: a row of \<open>get_history\<close> has the four keys \<open>version\<close>,
  \<open>hash\<close>, \<open>parent_hash\<close> and \<open>amendment\<close>; \<open>content\<close> is not a
  top-level key.
\<close>

theorem history_rows_are_flat_counterexample:
  "dict_keys (fst (get_history (act_1\<lparr>chain := [node_A]\<rparr>)) ! 0) =
     [str ''version'', str ''hash'', str ''parent_hash'', str ''amendment''] \<and>
   str ''content'' \<notin> set (dict_keys (fst (get_history (act_1\<lparr>chain := [node_A]\<rparr>)) ! 0))"
  by (simp add: get_history_def history_row_def dict_keys_def enumerate_eq_zip str_inj)

text \<open>
  C6, amended.  \<open>get_history\<close> returns one row for each entry, in order.  Row \<open>i\<close>
  (counted from 0) has the keys \<open>version\<close> (the integer \<open>i + 1\<close>), \<open>hash\<close>,
  \<open>parent_hash\<close> and \<open>amendment\<close>; the record's fields are nested under
  \<open>amendment\<close>, with the keys \<open>content\<close>, \<open>change_type\<close>, \<open>author\<close>,
  \<open>summary\<close> and \<open>timestamp\<close>.
\<close>

theorem history_rows_nest_the_record:
  "length (fst (get_history s)) = length (chain s) \<and>
   (\<forall>i<length (chain s).
      fst (get_history s) ! i = PDict [
        (str ''version'', PInt (int i + 1)),
        (str ''hash'', PStr (hash (chain s ! i))),
        (str ''parent_hash'', opt_str (parent_hash (chain s ! i))),
        (str ''amendment'', PDict [
           (str ''content'', PStr (content (amendment (chain s ! i)))),
           (str ''change_type'', PStr (change_type (amendment (chain s ! i)))),
           (str ''author'', PStr (author (amendment (chain s ! i)))),
           (str ''summary'', PStr (summary (amendment (chain s ! i)))),
           (str ''timestamp'', PStr (timestamp (amendment (chain s ! i))))])])"
  by (simp add: get_history_def history_row_def to_dict_def nth_enumerate_eq)

theorem history_rows_nest_the_record_witness:
  "(0::nat) < length (chain (act_1\<lparr>chain := [node_A]\<rparr>)) \<and>
   fst (get_history (act_1\<lparr>chain := [node_A]\<rparr>)) ! 0 = PDict [
        (str ''version'', PInt 1),
        (str ''hash'', PStr (entry_digest rec_A None)),
        (str ''parent_hash'', PNone),
        (str ''amendment'', PDict [
           (str ''content'', PStr (str ''A'')),
           (str ''change_type'', PStr (str ''substantive'')),
           (str ''author'', PStr (str ''Alice'')),
           (str ''summary'', PStr (str ''No summary'')),
           (str ''timestamp'', PStr (str ''2024-12-01T10:00:00''))])]"
  using history_rows_nest_the_record [of "act_1\<lparr>chain := [node_A]\<rparr>"]
  by (simp add: node_A_def rec_A_def opt_str_def)

text \<open>
  C7, as stated, fails on the empty input: the sentinel is \<open>No content\<close>, with a
  capital N.
\<close>

theorem simplify_sentinel_is_lowercase_counterexample:
  "simplify (LLMSummaryGenerator_init None) [] = Inr (str ''No content'') \<and>
   simplify (LLMSummaryGenerator_init None) [] \<noteq> Inr (str ''no content'')"
  by (simp add: simplify_def strip_def str_inj)

text \<open>
  C7, amended.  On an empty or whitespace-only input \<open>simplify\<close> returns
  \<open>No content\<close>.  On any other input the substitution succeeds; a result of at most
  200 characters is returned as it is, and a longer one is cut to its first 200
  characters, then just before the last space character (U+0020) among them, or not at
  all when there is none, and \<open>...\<close> is appended.
\<close>

theorem simplify_sentinel_and_truncation:
  "(blank txt \<longrightarrow> simplify g txt = Inr (str ''No content'')) \<and>
   (\<not> blank txt \<longrightarrow>
      (\<exists>sub. substituted txt = Inr sub \<and>
         (length sub \<le> 200 \<longrightarrow> simplify g txt = Inr sub) \<and>
         (200 < length sub \<and> 32 \<notin> set (take 200 sub) \<longrightarrow>
            simplify g txt = Inr (take 200 sub @ str ''...'')) \<and>
         (200 < length sub \<and> 32 \<in> set (take 200 sub) \<longrightarrow>
            (\<exists>k<200. sub ! k = 32 \<and> (\<forall>j. k < j \<and> j < 200 \<longrightarrow> sub ! j \<noteq> 32) \<and>
                 simplify g txt = Inr (take k sub @ str ''...'')))))"
proof (intro conjI impI)
  assume "blank txt"
  then show "simplify g txt = Inr (str ''No content'')"
    by (simp add: simplify_def strip_empty_iff)
next
  assume nb: "\<not> blank txt"
  obtain sub where sub: "substituted txt = Inr sub" using substituted_total by blast
  from nb have s: "simplify g txt =
      Inr (if length sub > 200 then hd (rsplit1 (take 200 sub) 32) @ str ''...'' else sub)"
    by (simp add: simplify_def strip_empty_iff fallback_simplify_def sub)
  have short: "length sub \<le> 200 \<longrightarrow> simplify g txt = Inr sub" using s by simp
  have nosp: "200 < length sub \<and> 32 \<notin> set (take 200 sub) \<longrightarrow>
      simplify g txt = Inr (take 200 sub @ str ''...'')"
    using s by (simp add: rsplit1_hd_none)
  have sp: "200 < length sub \<and> 32 \<in> set (take 200 sub) \<longrightarrow>
      (\<exists>k<200. sub ! k = 32 \<and> (\<forall>j. k < j \<and> j < 200 \<longrightarrow> sub ! j \<noteq> 32) \<and>
           simplify g txt = Inr (take k sub @ str ''...''))"
  proof
    assume a: "200 < length sub \<and> 32 \<in> set (take 200 sub)"
    from last_occurrence [of 32 200 sub] a obtain k zs where
      k: "k < 200" "sub ! k = 32" "\<forall>j. k < j \<and> j < 200 \<longrightarrow> sub ! j \<noteq> 32"
      and z: "take 200 sub = take k sub @ 32 # zs" "32 \<notin> set zs"
      by blast
    have "hd (rsplit1 (take 200 sub) 32) = take k sub"
      unfolding z(1) using z(2) by (rule rsplit1_hd_split)
    with s a have "simplify g txt = Inr (take k sub @ str ''...'')" by simp
    with k show "\<exists>k<200. sub ! k = 32 \<and> (\<forall>j. k < j \<and> j < 200 \<longrightarrow> sub ! j \<noteq> 32) \<and>
           simplify g txt = Inr (take k sub @ str ''...'')" by blast
  qed
  show "\<exists>sub. substituted txt = Inr sub \<and>
         (length sub \<le> 200 \<longrightarrow> simplify g txt = Inr sub) \<and>
         (200 < length sub \<and> 32 \<notin> set (take 200 sub) \<longrightarrow>
            simplify g txt = Inr (take 200 sub @ str ''...'')) \<and>
         (200 < length sub \<and> 32 \<in> set (take 200 sub) \<longrightarrow>
            (\<exists>k<200. sub ! k = 32 \<and> (\<forall>j. k < j \<and> j < 200 \<longrightarrow> sub ! j \<noteq> 32) \<and>
                 simplify g txt = Inr (take k sub @ str ''...'')))"
    by (rule exI [of _ sub]) (intro conjI sub short nosp sp)
qed

theorem simplify_sentinel_and_truncation_witness:
  "\<not> blank (str ''1 2'' @ [9] @ replicate 200 51) \<and>
   substituted (str ''1 2'' @ [9] @ replicate 200 51) = Inr (str ''1 2'' @ [9] @ replicate 200 51) \<and>
   200 < length (str ''1 2'' @ [9] @ replicate 200 51) \<and>
   32 \<in> set (take 200 (str ''1 2'' @ [9] @ replicate 200 51)) \<and>
   (\<exists>k<200. simplify (LLMSummaryGenerator_init None) (str ''1 2'' @ [9] @ replicate 200 51) =
       Inr (take k (str ''1 2'' @ [9] @ replicate 200 51) @ str ''...''))"
proof -
  let ?s = "str ''1 2'' @ [9] @ replicate 200 51"
  have sub: "substituted ?s = Inr ?s" using long_input_facts(2) by (rule substituted_absent)
  have len: "200 < length ?s" unfolding long_input_facts(3) by simp
  have sp: "32 \<in> set (take 200 ?s)" unfolding long_input_facts(4) by simp
  from simplify_sentinel_and_truncation [of ?s "LLMSummaryGenerator_init None"]
    long_input_facts(1) sub len sp
  have "\<exists>k<200. simplify (LLMSummaryGenerator_init None) ?s = Inr (take k ?s @ str ''...'')"
    by auto
  with long_input_facts(1) sub len sp show ?thesis by (intro conjI)
qed

text \<open>
  C4, as stated, fails: with an empty content and an unknown change type the error is
  the one for the content, not the one for the type.
\<close>

theorem validation_errors_are_independent_counterexample:
  "str ''bogus'' \<noteq> str ''substantive'' \<and> str ''bogus'' \<noteq> str ''editorial'' \<and>
   Amendment_init [] (str ''bogus'') (str ''Alice'') None None [] = Inl Content_required \<and>
   Amendment_init [] (str ''bogus'') (str ''Alice'') None None [] \<noteq> Inl Type_must_be_one_of"
  by (simp add: Amendment_init_blank_content blank_def str_inj)

text \<open>
  C4, amended.  The three checks run in the order content, change type, author, and the
  first that fails decides the error: \<open>Content required\<close> exactly when the content is
  empty or whitespace-only; the type error exactly when the content passes and the type is
  neither \<open>substantive\<close> nor \<open>editorial\<close>; \<open>Author required\<close> exactly when content
  and type pass and the author is empty or whitespace-only.  Construction succeeds, with
  the fields as given, exactly when all three pass.
\<close>

theorem validation_in_order:
  "(Amendment_init c t a sm g now = Inl Content_required \<longleftrightarrow> blank c) \<and>
   (Amendment_init c t a sm g now = Inl Type_must_be_one_of \<longleftrightarrow>
      \<not> blank c \<and> t \<noteq> str ''substantive'' \<and> t \<noteq> str ''editorial'') \<and>
   (Amendment_init c t a sm g now = Inl Author_required \<longleftrightarrow>
      \<not> blank c \<and> (t = str ''substantive'' \<or> t = str ''editorial'') \<and> blank a) \<and>
   ((\<exists>r. Amendment_init c t a sm g now = Inr r \<and> content r = c \<and> change_type r = t \<and>
          author r = a \<and> timestamp r = now) \<longleftrightarrow>
      \<not> blank c \<and> (t = str ''substantive'' \<or> t = str ''editorial'') \<and> \<not> blank a)"
proof -
  consider (c) "blank c" | (t) "\<not> blank c" "t \<notin> VALID_TYPES"
    | (a) "\<not> blank c" "t \<in> VALID_TYPES" "blank a"
    | (ok) "\<not> blank c" "t \<in> VALID_TYPES" "\<not> blank a"
    by blast
  then show ?thesis
  proof cases
    case c
    then show ?thesis by (simp add: Amendment_init_blank_content)
  next
    case t
    then show ?thesis by (simp add: Amendment_init_bad_type VALID_TYPES_iff)
  next
    case a
    then show ?thesis by (auto simp: Amendment_init_blank_author VALID_TYPES_iff)
  next
    case ok
    from Amendment_init_valid [OF ok] obtain s where
      "Amendment_init c t a sm g now =
         Inr \<lparr>content = c, change_type = t, author = a, summary = s, timestamp = now\<rparr>"
      by blast
    with ok show ?thesis by (auto simp: VALID_TYPES_iff)
  qed
qed

theorem validation_in_order_witness:
  "Amendment_init [] (str ''substantive'') (str ''Alice'') None None [] = Inl Content_required \<and>
   Amendment_init (str ''x'') (str ''bogus'') (str ''Alice'') None None [] = Inl Type_must_be_one_of \<and>
   Amendment_init (str ''x'') (str ''substantive'') [] None None [] = Inl Author_required \<and>
   (\<exists>r. Amendment_init (str ''x'') (str ''substantive'') (str ''Alice'') None None [] = Inr r)"
proof -
  have b: "blank []" "\<not> blank (str ''x'')" "\<not> blank (str ''Alice'')"
    by (simp_all add: blank_def str_def py_isspace_def)
  have t: "str ''bogus'' \<noteq> str ''substantive''" "str ''bogus'' \<noteq> str ''editorial''"
    by (simp_all add: str_inj)
  have 1: "Amendment_init [] (str ''substantive'') (str ''Alice'') None None [] = Inl Content_required"
    using validation_in_order [of "[]" "str ''substantive''" "str ''Alice''" None None "[]"] b
    by blast
  have 2: "Amendment_init (str ''x'') (str ''bogus'') (str ''Alice'') None None [] = Inl Type_must_be_one_of"
    using validation_in_order [of "str ''x''" "str ''bogus''" "str ''Alice''" None None "[]"] b t
    by blast
  have 3: "Amendment_init (str ''x'') (str ''substantive'') [] None None [] = Inl Author_required"
    using validation_in_order [of "str ''x''" "str ''substantive''" "[]" None None "[]"] b
    by blast
  have 4: "\<exists>r. Amendment_init (str ''x'') (str ''substantive'') (str ''Alice'') None None [] = Inr r"
    using validation_in_order [of "str ''x''" "str ''substantive''" "str ''Alice''" None None "[]"] b
    by blast
  from 1 2 3 4 show ?thesis by (intro conjI)
qed

text \<open>
  C9, as stated, fails when a summarizer is supplied: the empty summary is replaced by
  the summarizer's output, not by the placeholder.
\<close>

theorem empty_summary_gives_placeholder_counterexample:
  "Amendment_init (str ''42'') (str ''substantive'') (str ''Alice'') (Some [])
      (Some (LLMSummaryGenerator_init None)) (str ''2024-12-01T10:00:00'') =
     Inr \<lparr>content = str ''42'', change_type = str ''substantive'', author = str ''Alice'',
          summary = str ''42'', timestamp = str ''2024-12-01T10:00:00''\<rparr> \<and>
   str ''42'' \<noteq> str ''No summary''"
proof -
  have b: "\<not> blank (str ''42'')" "\<not> blank (str ''Alice'')"
    by (simp_all add: blank_def str_def py_isspace_def)
  have v: "str ''substantive'' \<in> VALID_TYPES" by (simp add: VALID_TYPES_def)
  have "simplify (LLMSummaryGenerator_init None) (str ''42'') = Inr (str ''42'')"
    using b(1) by (rule simplify_absent) (simp_all add: str_def)
  then show ?thesis
    unfolding Amendment_init_accepts [OF b(1) v b(2)] by (simp add: str_inj)
qed

text \<open>
  C9, amended.  For inputs that pass validation, an empty supplied summary is treated as
  no summary at all: without a summarizer the stored summary is \<open>No summary\<close>, with a
  summarizer it is the summarizer's output for the content.  Without a summarizer the
  stored summary is never empty, whatever summary is supplied.
\<close>

theorem empty_summary_is_discarded:
  "\<not> blank c \<Longrightarrow> t \<in> VALID_TYPES \<Longrightarrow> \<not> blank a \<Longrightarrow>
     Amendment_init c t a (Some []) g now = Amendment_init c t a None g now \<and>
     Amendment_init c t a (Some []) None now =
       Inr \<lparr>content = c, change_type = t, author = a, summary = str ''No summary'', timestamp = now\<rparr> \<and>
     (\<exists>s. simplify l c = Inr s \<and>
          Amendment_init c t a (Some []) (Some l) now =
            Inr \<lparr>content = c, change_type = t, author = a, summary = s, timestamp = now\<rparr>) \<and>
     (\<exists>r. Amendment_init c t a sm None now = Inr r \<and> summary r \<noteq> [])"
proof -
  assume a: "\<not> blank c" "t \<in> VALID_TYPES" "\<not> blank a"
  have 1: "Amendment_init c t a (Some []) g now = Amendment_init c t a None g now"
    unfolding Amendment_init_accepts [OF a] by simp
  have 2: "Amendment_init c t a (Some []) None now =
       Inr \<lparr>content = c, change_type = t, author = a, summary = str ''No summary'', timestamp = now\<rparr>"
    unfolding Amendment_init_accepts [OF a] by simp
  obtain s where s: "simplify l c = Inr s" using simplify_total by blast
  then have "Amendment_init c t a (Some []) (Some l) now =
            Inr \<lparr>content = c, change_type = t, author = a, summary = s, timestamp = now\<rparr>"
    unfolding Amendment_init_accepts [OF a] by simp
  with s have 3: "\<exists>s. simplify l c = Inr s \<and>
          Amendment_init c t a (Some []) (Some l) now =
            Inr \<lparr>content = c, change_type = t, author = a, summary = s, timestamp = now\<rparr>"
    by blast
  have 4: "\<exists>r. Amendment_init c t a sm None now = Inr r \<and> summary r \<noteq> []"
  proof (cases "sm \<noteq> None \<and> sm \<noteq> Some []")
    case True
    then obtain x where "sm = Some x" "x \<noteq> []" by auto
    then show ?thesis unfolding Amendment_init_accepts [OF a] by simp
  next
    case False
    then show ?thesis unfolding Amendment_init_accepts [OF a] by (auto simp: str_def)
  qed
  from 1 2 3 4 show ?thesis by (intro conjI)
qed

theorem empty_summary_is_discarded_witness:
  "\<not> blank (str ''A'') \<and> str ''substantive'' \<in> VALID_TYPES \<and> \<not> blank (str ''Alice'') \<and>
   Amendment_init (str ''A'') (str ''substantive'') (str ''Alice'') (Some []) None
      (str ''2024-12-01T10:00:00'') = Inr rec_A"
proof -
  have b: "\<not> blank (str ''A'')" "\<not> blank (str ''Alice'')"
    by (simp_all add: blank_def str_def py_isspace_def)
  have v: "str ''substantive'' \<in> VALID_TYPES" by (simp add: VALID_TYPES_def)
  from empty_summary_is_discarded [OF b(1) v b(2)]
  have "Amendment_init (str ''A'') (str ''substantive'') (str ''Alice'') (Some []) None
      (str ''2024-12-01T10:00:00'') = Inr rec_A"
    unfolding rec_A_def by blast
  with b v show ?thesis by (intro conjI)
qed

end
